theory Spec2Isabelle
  imports Complex_Main
begin

section \<open>The merchant cog: data model\<close>

text \<open>
  A shallow embedding of \<^verbatim>\<open>merchant/cog.py\<close> (class \<^verbatim>\<open>Merchant\<close>). The Django tables the
  cog reads and writes are lists of rows, in the order of insertion; a primary key is an
  \<open>int\<close>, as are all numeric columns (Python integers). A \<^verbatim>\<open>datetime\<close> is the number of
  microseconds since the epoch, so that \<^verbatim>\<open>timedelta(minutes=m)\<close> is \<open>m * 60000000\<close> and
  \<^verbatim>\<open>timedelta(seconds=s)\<close> is \<open>s * 1000000\<close>. Every read of the clock
  (\<^verbatim>\<open>timezone.now()\<close>) is a parameter of its own of the function that makes it.
\<close>

type_synonym time = int

record merchant_settings =
  cfg_enabled :: bool
  items_per_rotation :: int
  rotation_minutes :: int
  purchase_cooldown_seconds :: int
  last_rotation_at :: "time option"

record merchant_item =
  item_id :: int
  item_enabled :: bool
  weight :: int
  price :: int
  ball :: int
  special :: "int option"

record merchant_rotation =
  rotation_id :: int
  starts_at :: time
  ends_at :: time

record merchant_rotation_item =
  entry_id :: int
  entry_rotation :: int
  entry_item :: int
  price_snapshot :: int

record player =
  player_pk :: int
  discord_id :: int
  money :: int

record merchant_purchase =
  purchase_player :: int
  purchase_rotation_item :: int
  created_at :: time

record ball_instance =
  bi_ball :: int
  bi_player :: int
  bi_special :: "int option"
  bi_server_id :: "int option"
  tradeable :: bool

text \<open>
  Modelled from the spec: the model classes of \<^verbatim>\<open>merchant/models.py\<close> (\<^verbatim>\<open>MerchantItem\<close>,
  \<^verbatim>\<open>MerchantSettings\<close>, \<^verbatim>\<open>MerchantRotation\<close>, \<^verbatim>\<open>MerchantRotationItem\<close>,
  \<^verbatim>\<open>MerchantPurchase\<close>) are not among the sources. The records above have the columns the
  cog reads and writes, which are those of the spec's data model; \<^verbatim>\<open>MerchantSettings.load()\<close>
  is the read of the singleton settings row; \<open>created_at\<close> of a ledger row is the time of
  its creation. \<^verbatim>\<open>Player\<close> and \<^verbatim>\<open>BallInstance\<close> belong to \<^verbatim>\<open>bd_models\<close>, outside this package.

  The store: the singleton settings row and the six tables, and two parameters of the
  host that runs the cog. \<open>default_money\<close> is the column default of \<^verbatim>\<open>Player.money\<close>,
  which \<^verbatim>\<open>aget_or_create\<close> gives a new player. \<open>allow_async_unsafe\<close> is the setting
  \<^verbatim>\<open>DJANGO_ALLOW_ASYNC_UNSAFE\<close> of the host's environment: Django refuses a synchronous
  call of the ORM on a thread with a running event loop (\<^verbatim>\<open>SynchronousOnlyOperation\<close>)
  unless it is set, and \<^verbatim>\<open>buy\<close> makes such calls (see there). Nothing under the sources
  sets or reads it.
\<close>

record db =
  settings :: merchant_settings
  items :: "merchant_item list"
  rotations :: "merchant_rotation list"
  rotation_items :: "merchant_rotation_item list"
  players :: "player list"
  purchases :: "merchant_purchase list"
  ball_instances :: "ball_instance list"
  default_money :: int
  allow_async_unsafe :: bool

datatype error = DoesNotExist | IndexError | ValueError | StoreFault

text \<open>The key the store's sequence gives the next row of a table: above every key in use.\<close>

definition next_pk :: "int list \<Rightarrow> int" where
  "next_pk ids = fold max ids 0 + 1"

section \<open>Rotation manager\<close>

subsection \<open>\<^verbatim>\<open>_get_active_rotation\<close>\<close>

text \<open>
  \<^verbatim>\<open>order_by("-<column>").afirst()\<close>: the row with the greatest value of the column; among
  equal ones the model takes the first in table order. \<^verbatim>\<open>_get_active_rotation\<close> orders by
  \<open>starts_at\<close>, \<^verbatim>\<open>_get_cooldown_end\<close> by \<open>created_at\<close>.
\<close>

fun afirst_desc :: "('a \<Rightarrow> int) \<Rightarrow> 'a list \<Rightarrow> 'a option" where
  "afirst_desc column [] = None"
| "afirst_desc column (x # xs) =
     (case afirst_desc column xs of
        None \<Rightarrow> Some x
      | Some m \<Rightarrow> if column x < column m then Some m else Some x)"

definition get_active_rotation :: "db \<Rightarrow> time \<Rightarrow> merchant_rotation option" where
  "get_active_rotation d now =
     afirst_desc starts_at (filter (\<lambda>r. now < ends_at r) (rotations d))"

subsection \<open>Weighted selection without replacement\<close>

text \<open>
  \<^verbatim>\<open>random.choices(pool, weights=weights, k=1)[0]\<close> of the standard library: it accumulates
  the weights, takes \<^verbatim>\<open>total = cum_weights[-1]\<close>, refuses a total that is not positive and
  returns \<^verbatim>\<open>population[bisect(cum_weights, random() * total, 0, n - 1)]\<close>, where
  \<^verbatim>\<open>total\<close> has been converted to a float and the product is a product of floats. The
  model does not round: the value of that floating-point expression is a parameter,
  \<open>product total\<close>, a number that the comparisons of \<^verbatim>\<open>bisect\<close> with the integer cumulative
  weights read exactly. \<open>bisect\<close> is \<^verbatim>\<open>bisect_right\<close> from \<open>lo = 0\<close>: on the increasing
  list of cumulative weights, the number of leading elements, among the first \<open>hi\<close>,
  that are at most \<open>x\<close>.
\<close>

fun accumulate :: "int \<Rightarrow> int list \<Rightarrow> int list" where
  "accumulate acc [] = []"
| "accumulate acc (w # ws) = (acc + w) # accumulate (acc + w) ws"

definition bisect :: "int list \<Rightarrow> real \<Rightarrow> nat \<Rightarrow> nat" where
  "bisect a x hi = length (takeWhile (\<lambda>c. real_of_int c \<le> x) (take hi a))"

definition choices :: "'a list \<Rightarrow> int list \<Rightarrow> (int \<Rightarrow> real) \<Rightarrow> error + 'a" where
  "choices population weights product =
     (let cum_weights = accumulate 0 weights;
          n = length population
      in if length cum_weights \<noteq> n then Inl ValueError
         else if cum_weights = [] then Inl IndexError
         else let total = last cum_weights
              in if total \<le> 0 then Inl ValueError
                 else Inr (population ! bisect cum_weights (product total) (n - 1)))"

text \<open>
  \<^verbatim>\<open>pool.remove(choice)\<close>: the first element equal to \<open>choice\<close> goes; two Django model
  instances are equal when their primary keys are. A value that is not in the list
  raises \<^verbatim>\<open>ValueError\<close>.
\<close>

fun pool_remove :: "merchant_item \<Rightarrow> merchant_item list \<Rightarrow> error + merchant_item list" where
  "pool_remove c [] = Inl ValueError"
| "pool_remove c (x # xs) =
     (if item_id x = item_id c then Inr xs
      else case pool_remove c xs of Inl e \<Rightarrow> Inl e | Inr ys \<Rightarrow> Inr (x # ys))"

text \<open>
  The random source: \<open>rnd i total\<close> is the floating-point value of \<^verbatim>\<open>random() * total\<close> at
  the \<open>i\<close>-th call of \<^verbatim>\<open>random()\<close>, as the host computes it. In the loop
  \<^verbatim>\<open>for _ in range(k)\<close> of \<^verbatim>\<open>_create_new_rotation\<close>, \<open>i\<close> counts the draws made so far.
\<close>

type_synonym random_source = "nat \<Rightarrow> int \<Rightarrow> real"

definition draw :: "merchant_item list \<Rightarrow> (int \<Rightarrow> real) \<Rightarrow> error + merchant_item" where
  "draw pool product = choices pool (map (\<lambda>i. max 1 (weight i)) pool) product"

fun select_items ::
  "random_source \<Rightarrow> nat \<Rightarrow> nat \<Rightarrow> merchant_item list \<Rightarrow> merchant_item list
    \<Rightarrow> error + merchant_item list" where
  "select_items rnd i 0 pool selected_items = Inr selected_items"
| "select_items rnd i (Suc k) pool selected_items =
     (case draw pool (rnd i) of
        Inl e \<Rightarrow> Inl e
      | Inr choice \<Rightarrow>
          (case pool_remove choice pool of
             Inl e \<Rightarrow> Inl e
           | Inr pool' \<Rightarrow> select_items rnd (Suc i) k pool' (selected_items @ [choice])))"

subsection \<open>\<^verbatim>\<open>_create_new_rotation\<close> and \<^verbatim>\<open>ensure_rotation\<close>\<close>

text \<open>
  The three writes of \<^verbatim>\<open>_create_new_rotation\<close> (\<^verbatim>\<open>acreate\<close>, \<^verbatim>\<open>abulk_create\<close>,
  \<^verbatim>\<open>aupdate\<close>) are separate statements, none inside a transaction. A fault of the store
  at one of them raises out of the function and leaves what the earlier writes stored.
  \<^verbatim>\<open>abulk_create\<close> of an empty list returns without touching the store.
\<close>

datatype rotation_fault = NoRotationFault | CreateFails | BulkCreateFails | UpdateFails

fun new_entries :: "int \<Rightarrow> int \<Rightarrow> merchant_item list \<Rightarrow> merchant_rotation_item list" where
  "new_entries pk rid [] = []"
| "new_entries pk rid (item # rest) =
     \<lparr>entry_id = pk, entry_rotation = rid, entry_item = item_id item,
      price_snapshot = price item\<rparr> # new_entries (pk + 1) rid rest"

definition create_new_rotation ::
  "db \<Rightarrow> merchant_settings \<Rightarrow> random_source \<Rightarrow> time \<Rightarrow> rotation_fault
    \<Rightarrow> (error + merchant_rotation option) \<times> db" where
  "create_new_rotation d config rnd now fault =
     (let available_items = filter item_enabled (items d)
      in if available_items = [] then (Inr None, d)
         else let k = min (items_per_rotation config) (int (length available_items))
              in case select_items rnd 0 (nat k) available_items [] of
                   Inl e \<Rightarrow> (Inl e, d)
                 | Inr selected_items \<Rightarrow>
                     if fault = CreateFails then (Inl StoreFault, d)
                     else
                       let new_rotation =
                             \<lparr>rotation_id = next_pk (map rotation_id (rotations d)),
                              starts_at = now,
                              ends_at = now + rotation_minutes config * 60000000\<rparr>;
                           d1 = d\<lparr>rotations := rotations d @ [new_rotation]\<rparr>
                       in if selected_items \<noteq> [] \<and> fault = BulkCreateFails
                          then (Inl StoreFault, d1)
                          else
                            let d2 = d1\<lparr>rotation_items := rotation_items d1 @
                                       new_entries (next_pk (map entry_id (rotation_items d1)))
                                         (rotation_id new_rotation) selected_items\<rparr>
                            in if fault = UpdateFails then (Inl StoreFault, d2)
                               else (Inr (Some new_rotation),
                                     d2\<lparr>settings := (settings d2)\<lparr>last_rotation_at := Some now\<rparr>\<rparr>))"

text \<open>
  \<^verbatim>\<open>ensure_rotation\<close>, the body under \<^verbatim>\<open>_rotation_lock\<close>. \<open>t_now\<close> is the clock read of
  the function itself, \<open>t_query\<close> the one inside \<^verbatim>\<open>_get_active_rotation\<close>, \<open>t_create\<close>
  the one inside \<^verbatim>\<open>_create_new_rotation\<close>.
\<close>

definition ensure_rotation ::
  "db \<Rightarrow> time \<Rightarrow> time \<Rightarrow> time \<Rightarrow> random_source \<Rightarrow> rotation_fault
    \<Rightarrow> (error + merchant_rotation option) \<times> db" where
  "ensure_rotation d t_now t_query t_create rnd fault =
     (let config = settings d
      in if \<not> cfg_enabled config then (Inr None, d)
         else case get_active_rotation d t_query of
                Some rotation \<Rightarrow>
                  if t_now < ends_at rotation then (Inr (Some rotation), d)
                  else create_new_rotation d config rnd t_create fault
              | None \<Rightarrow> create_new_rotation d config rnd t_create fault)"

subsection \<open>\<^verbatim>\<open>_get_rotation_entries\<close> and the \<^verbatim>\<open>view\<close> command\<close>

text \<open>
  The line items of a rotation, each joined with its catalog item
  (\<^verbatim>\<open>select_related("item__ball", "item__special")\<close>): a line item whose catalog row is
  gone does not come out of the join.
\<close>

definition get_rotation_entries ::
  "db \<Rightarrow> merchant_rotation \<Rightarrow> (merchant_rotation_item \<times> merchant_item) list" where
  "get_rotation_entries d rotation =
     List.map_filter
       (\<lambda>e. if entry_rotation e = rotation_id rotation
            then (case find (\<lambda>i. item_id i = entry_item e) (items d) of
                    None \<Rightarrow> None
                  | Some i \<Rightarrow> Some (e, i))
            else None)
       (rotation_items d)"

text \<open>
  \<^verbatim>\<open>view\<close>: what the command shows is the outcome (the wording of the embed is
  presentation). An exception of \<^verbatim>\<open>ensure_rotation\<close> leaves the command unhandled.
\<close>

datatype view_response =
    Away
  | SoldOut merchant_rotation
  | Stock merchant_rotation "(merchant_rotation_item \<times> merchant_item) list"

definition view ::
  "db \<Rightarrow> time \<Rightarrow> time \<Rightarrow> time \<Rightarrow> random_source \<Rightarrow> rotation_fault
    \<Rightarrow> (error + view_response) \<times> db" where
  "view d t_now t_query t_create rnd fault =
     (case ensure_rotation d t_now t_query t_create rnd fault of
        (Inl e, d') \<Rightarrow> (Inl e, d')
      | (Inr None, d') \<Rightarrow> (Inr Away, d')
      | (Inr (Some rotation), d') \<Rightarrow>
          (let entries = get_rotation_entries d' rotation
           in if entries = [] then (Inr (SoldOut rotation), d')
              else (Inr (Stock rotation entries), d')))"

section \<open>Purchase processor\<close>

subsection \<open>Lookups of the \<^verbatim>\<open>buy\<close> command\<close>

text \<open>
  \<^verbatim>\<open>Player.objects.aget_or_create(discord_id=...)\<close>: the row with this Discord id, or a
  new row with the column defaults. (\<open>discord_id\<close> is a unique column: the first match
  is the only one.)
\<close>

definition aget_or_create :: "db \<Rightarrow> int \<Rightarrow> player \<times> db" where
  "aget_or_create d uid =
     (case find (\<lambda>p. discord_id p = uid) (players d) of
        Some p \<Rightarrow> (p, d)
      | None \<Rightarrow>
          (let p = \<lparr>player_pk = next_pk (map player_pk (players d)), discord_id = uid,
                    money = default_money d\<rparr>
           in (p, d\<lparr>players := players d @ [p]\<rparr>)))"

text \<open>
  Modelled from the spec: \<^verbatim>\<open>Player.can_afford\<close> is a method of the \<^verbatim>\<open>Player\<close> model of
  \<^verbatim>\<open>bd_models\<close>, which is not part of this package; the spec words both balance checks
  as "balance \<open>\<ge>\<close> price_snapshot".
\<close>

definition can_afford :: "player \<Rightarrow> int \<Rightarrow> bool" where
  "can_afford p amount = (amount \<le> money p)"

text \<open>
  \<^verbatim>\<open>MerchantPurchase.objects.filter(player=player).order_by("-created_at").afirst()\<close>
  and \<^verbatim>\<open>_get_cooldown_end\<close>.
\<close>

definition get_cooldown_end :: "db \<Rightarrow> player \<Rightarrow> int \<Rightarrow> time \<Rightarrow> time option" where
  "get_cooldown_end d pl cooldown_seconds now =
     (case afirst_desc created_at
             (filter (\<lambda>x. purchase_player x = player_pk pl) (purchases d)) of
        None \<Rightarrow> None
      | Some last_purchase \<Rightarrow>
          (let ready_at = created_at last_purchase + cooldown_seconds * 1000000
           in if now < ready_at then Some ready_at else None))"

subsection \<open>The \<^verbatim>\<open>buy\<close> command\<close>

text \<open>
  The outcomes of \<^verbatim>\<open>buy\<close>, one for each message the command sends: the five rejections
  of the checks, the rejection inside the transaction ("Transaction failed: Insufficient
  funds."), the success, and the generic message of the \<^verbatim>\<open>except\<close> branch.
\<close>

datatype response =
    Disabled
  | NoRotation
  | NotFound
  | Throttled time
  | InsufficientFunds
  | TransactionInsufficientFunds
  | Success ball_instance
  | PurchaseError

record request =
  user_id :: int
  guild_id :: "int option"
  req_item_id :: int

text \<open>
  \<open>buy_checks\<close> is the command up to \<^verbatim>\<open>interaction.response.defer\<close>: it ends the
  command with a rejection, or hands the line item (joined with its catalog item) and the
  player object it fetched to the transaction. \<open>t_rotation\<close> is the clock read of
  \<^verbatim>\<open>_get_active_rotation\<close>, \<open>t_cooldown\<close> that of \<^verbatim>\<open>_get_cooldown_end\<close>.
\<close>

definition buy_checks ::
  "db \<Rightarrow> request \<Rightarrow> time \<Rightarrow> time
    \<Rightarrow> (response + (merchant_rotation_item \<times> merchant_item) \<times> player) \<times> db" where
  "buy_checks d req t_rotation t_cooldown =
     (let config = settings d
      in if \<not> cfg_enabled config then (Inl Disabled, d)
         else case get_active_rotation d t_rotation of
                None \<Rightarrow> (Inl NoRotation, d)
              | Some rotation \<Rightarrow>
                  (case find (\<lambda>e. entry_id (fst e) = req_item_id req)
                          (get_rotation_entries d rotation) of
                     None \<Rightarrow> (Inl NotFound, d)
                   | Some entry \<Rightarrow>
                       (case aget_or_create d (user_id req) of
                          (pl, d1) \<Rightarrow>
                            (case get_cooldown_end d1 pl (purchase_cooldown_seconds config)
                                    t_cooldown of
                               Some cooldown_end \<Rightarrow> (Inl (Throttled cooldown_end), d1)
                             | None \<Rightarrow>
                                 if \<not> can_afford pl (price_snapshot (fst entry))
                                 then (Inl InsufficientFunds, d1)
                                 else (Inr (entry, pl), d1)))))"

text \<open>
  \<^verbatim>\<open>with transaction.atomic()\<close>: the writes of the body reach the store when the body
  ends (also by \<^verbatim>\<open>return\<close>); when it raises, the store is as it was before the block.
\<close>

definition atomic :: "(db \<Rightarrow> (error + 'a) \<times> db) \<Rightarrow> db \<Rightarrow> (error + 'a) \<times> db" where
  "atomic body d = (case body d of (Inl e, _) \<Rightarrow> (Inl e, d) | (Inr r, d') \<Rightarrow> (Inr r, d'))"

text \<open>
  The faults of the store during a purchase: one at each statement of the transaction
  that touches the store, and one when the success message is rendered and sent, after
  the block has ended.
\<close>

datatype txn_fault = GetFails | SaveFails | GrantFails | LedgerFails

datatype purchase_fault = NoFault | InTransaction txn_fault | ReplyFails

definition get_player :: "db \<Rightarrow> int \<Rightarrow> error + player" where
  "get_player d pk =
     (case find (\<lambda>p. player_pk p = pk) (players d) of
        None \<Rightarrow> Inl DoesNotExist
      | Some p \<Rightarrow> Inr p)"

definition save_player :: "db \<Rightarrow> player \<Rightarrow> db" where
  "save_player d pl =
     d\<lparr>players := map (\<lambda>p. if player_pk p = player_pk pl then pl else p) (players d)\<rparr>"

text \<open>
  The body of the \<^verbatim>\<open>with\<close> block. The second component of a raise is the store as the
  statements before it wrote it. The ledger row takes \<open>t_created\<close>, the clock at its
  creation, as \<open>created_at\<close>.
\<close>

definition purchase_body ::
  "(merchant_rotation_item \<times> merchant_item) \<Rightarrow> player \<Rightarrow> int option \<Rightarrow> time
    \<Rightarrow> purchase_fault \<Rightarrow> db \<Rightarrow> (error + response) \<times> db" where
  "purchase_body entry pl guild t_created fault d =
     (if fault = InTransaction GetFails then (Inl StoreFault, d)
      else case get_player d (player_pk pl) of
             Inl e \<Rightarrow> (Inl e, d)
           | Inr locked_player \<Rightarrow>
               if \<not> can_afford locked_player (price_snapshot (fst entry))
               then (Inr TransactionInsufficientFunds, d)
               else if fault = InTransaction SaveFails then (Inl StoreFault, d)
               else
                 let locked_player' =
                       locked_player\<lparr>money := money locked_player - price_snapshot (fst entry)\<rparr>;
                     d1 = save_player d locked_player'
                 in if fault = InTransaction GrantFails then (Inl StoreFault, d1)
                    else
                      let instance =
                            \<lparr>bi_ball = ball (snd entry), bi_player = player_pk locked_player',
                             bi_special = special (snd entry), bi_server_id = guild,
                             tradeable = True\<rparr>;
                          d2 = d1\<lparr>ball_instances := ball_instances d1 @ [instance]\<rparr>
                      in if fault = InTransaction LedgerFails then (Inl StoreFault, d2)
                         else (Inr (Success instance),
                               d2\<lparr>purchases := purchases d2 @
                                    [\<lparr>purchase_player = player_pk locked_player',
                                      purchase_rotation_item = entry_id (fst entry),
                                      created_at = t_created\<rparr>]\<rparr>))"

text \<open>The \<^verbatim>\<open>try\<close> statement: the block, the success message after it, the \<^verbatim>\<open>except\<close>.\<close>

definition buy_transaction ::
  "db \<Rightarrow> (merchant_rotation_item \<times> merchant_item) \<Rightarrow> player \<Rightarrow> int option \<Rightarrow> time
    \<Rightarrow> purchase_fault \<Rightarrow> response \<times> db" where
  "buy_transaction d entry pl guild t_created fault =
     (case atomic (purchase_body entry pl guild t_created fault) d of
        (Inl e, d') \<Rightarrow> (PurchaseError, d')
      | (Inr TransactionInsufficientFunds, d') \<Rightarrow> (TransactionInsufficientFunds, d')
      | (Inr r, d') \<Rightarrow> if fault = ReplyFails then (PurchaseError, d') else (r, d'))"

text \<open>
  \<^verbatim>\<open>buy\<close>: the checks, then the \<^verbatim>\<open>try\<close> statement. \<^verbatim>\<open>buy\<close> is a coroutine, and the block
  \<^verbatim>\<open>with transaction.atomic()\<close> and every statement in it is a synchronous call of the
  ORM. Where the host does not allow that (\<open>allow_async_unsafe\<close>), Django raises on
  entering the block, before its first statement has read or written anything: the
  transaction then meets the fault of its first database access, whatever the store would
  have done, and the \<^verbatim>\<open>except\<close> branch answers.
\<close>

definition buy ::
  "db \<Rightarrow> request \<Rightarrow> time \<Rightarrow> time \<Rightarrow> time \<Rightarrow> purchase_fault \<Rightarrow> response \<times> db" where
  "buy d req t_rotation t_cooldown t_created fault =
     (case buy_checks d req t_rotation t_cooldown of
        (Inl rejection, d1) \<Rightarrow> (rejection, d1)
      | (Inr (entry, pl), d1) \<Rightarrow>
          buy_transaction d1 entry pl (guild_id req) t_created
            (if allow_async_unsafe d1 then fault else InTransaction GetFails))"

subsection \<open>Two attempts in flight\<close>

text \<open>
  Several \<^verbatim>\<open>buy\<close> commands can be in flight at once: the coroutines of one event loop
  interleave at every \<^verbatim>\<open>await\<close>, and other processes use the same database. An attempt is
  modelled by the steps another attempt can fall between. \<open>Start\<close>: nothing done yet; its
  step runs the checks (\<open>buy_checks\<close>) and ends the attempt with their rejection or goes
  on to \<open>Checked\<close>, holding the line item and the player object. \<open>Checked\<close>: its step enters
  the block and runs \<^verbatim>\<open>Player.objects.select_for_update().get(pk=player.pk)\<close>. The row
  lock of \<^verbatim>\<open>select_for_update\<close> makes this step wait while the other attempt holds the
  lock on the same row (the attempt stays \<open>Checked\<close>); otherwise the attempt is \<open>Locked\<close>
  and holds the row as it read it. \<open>Locked\<close>: its step runs the rest of the block
  (\<open>purchase_locked\<close>: the balance check on the row read under the lock, the debit, the
  grant, the ledger row) and leaves the block, which commits the writes and releases the
  lock. Until then the writes are not in the store other attempts read. The store raises
  no fault of its own in these runs.
\<close>

definition purchase_locked ::
  "(merchant_rotation_item \<times> merchant_item) \<Rightarrow> player \<Rightarrow> int option \<Rightarrow> time \<Rightarrow> db
    \<Rightarrow> response \<times> db" where
  "purchase_locked entry locked_player guild t_created d =
     (if \<not> can_afford locked_player (price_snapshot (fst entry))
      then (TransactionInsufficientFunds, d)
      else
        let locked_player' =
              locked_player\<lparr>money := money locked_player - price_snapshot (fst entry)\<rparr>;
            d1 = save_player d locked_player';
            instance =
              \<lparr>bi_ball = ball (snd entry), bi_player = player_pk locked_player',
               bi_special = special (snd entry), bi_server_id = guild, tradeable = True\<rparr>;
            d2 = d1\<lparr>ball_instances := ball_instances d1 @ [instance]\<rparr>
        in (Success instance,
            d2\<lparr>purchases := purchases d2 @
                 [\<lparr>purchase_player = player_pk locked_player',
                   purchase_rotation_item = entry_id (fst entry),
                   created_at = t_created\<rparr>]\<rparr>))"







section \<open>Notions used to state the properties\<close>

text \<open>
  The effective weight of the first \<open>i\<close> items of a pool, summed: the draw of
  \<^verbatim>\<open>random.choices\<close> picks the item at index \<open>i\<close> when \<open>random() * total\<close> falls between
  \<open>cum_weight pool i\<close> and \<open>cum_weight pool (Suc i)\<close>.
\<close>

definition cum_weight :: "merchant_item list \<Rightarrow> nat \<Rightarrow> int" where
  "cum_weight pool i = sum_list (map (\<lambda>i. max 1 (weight i)) (take i pool))"

subsection \<open>An example store\<close>

text \<open>
  Two enabled catalog items and a disabled one; an expired rotation with one line item
  and the rotation that superseded it, with two; one player with a balance of 100.
\<close>

definition ex_common :: merchant_item where
  "ex_common = \<lparr>item_id = 1, item_enabled = True, weight = 0, price = 80, ball = 7,
                 special = None\<rparr>"

definition ex_rare :: merchant_item where
  "ex_rare = \<lparr>item_id = 2, item_enabled = True, weight = 3, price = 50, ball = 8,
               special = Some 4\<rparr>"

definition ex_retired :: merchant_item where
  "ex_retired = \<lparr>item_id = 3, item_enabled = False, weight = 5, price = 10, ball = 9,
                  special = None\<rparr>"

definition ex_settings :: merchant_settings where
  "ex_settings = \<lparr>cfg_enabled = True, items_per_rotation = 2, rotation_minutes = 60,
                   purchase_cooldown_seconds = 60, last_rotation_at = Some 1000\<rparr>"

definition ex_expired :: merchant_rotation where
  "ex_expired = \<lparr>rotation_id = 1, starts_at = 0, ends_at = 1000\<rparr>"

definition ex_current :: merchant_rotation where
  "ex_current = \<lparr>rotation_id = 2, starts_at = 1000, ends_at = 5000\<rparr>"

definition ex_entries :: "merchant_rotation_item list" where
  "ex_entries =
     [\<lparr>entry_id = 1, entry_rotation = 1, entry_item = 1, price_snapshot = 70\<rparr>,
      \<lparr>entry_id = 2, entry_rotation = 2, entry_item = 1, price_snapshot = 80\<rparr>,
      \<lparr>entry_id = 3, entry_rotation = 2, entry_item = 2, price_snapshot = 50\<rparr>]"

definition ex_alice :: player where
  "ex_alice = \<lparr>player_pk = 1, discord_id = 111, money = 100\<rparr>"

definition ex_store :: db where
  "ex_store = \<lparr>settings = ex_settings, items = [ex_common, ex_rare, ex_retired],
                rotations = [ex_expired, ex_current], rotation_items = ex_entries,
                players = [ex_alice], purchases = [], ball_instances = [],
                default_money = 0, allow_async_unsafe = True\<rparr>"

text \<open>The same store before any rotation was created.\<close>

definition ex_fresh_store :: db where
  "ex_fresh_store = ex_store\<lparr>rotations := [], rotation_items := []\<rparr>"

text \<open>The same store after the player bought line item 3 at time 1500.\<close>

definition ex_store_after_purchase :: db where
  "ex_store_after_purchase =
     ex_store\<lparr>purchases := [\<lparr>purchase_player = 1, purchase_rotation_item = 3,
                               created_at = 1500\<rparr>]\<rparr>"

definition ex_request :: request where
  "ex_request = \<lparr>user_id = 111, guild_id = Some 9, req_item_id = 2\<rparr>"



section \<open>The weighted selection\<close>

subsection \<open>Cumulative weights and the bisection\<close>

lemma length_accumulate: "length (accumulate a ws) = length ws"
  by (induction ws arbitrary: a) auto

lemma accumulate_nth:
  "i < length ws \<Longrightarrow> accumulate a ws ! i = a + sum_list (take (Suc i) ws)"
proof (induction ws arbitrary: a i)
  case Nil
  then show ?case by simp
next
  case (Cons w ws)
  then show ?case by (cases i) (auto simp: algebra_simps)
qed

lemma accumulate_Nil_iff: "accumulate a ws = [] \<longleftrightarrow> ws = []"
  by (cases ws) auto

lemma last_accumulate: "ws \<noteq> [] \<Longrightarrow> last (accumulate a ws) = a + sum_list ws"
  by (simp add: last_conv_nth length_accumulate accumulate_nth accumulate_Nil_iff)

lemma length_takeWhile_eq_iff:
  "length (takeWhile P xs) = i \<longleftrightarrow>
     i \<le> length xs \<and> (\<forall>j<i. P (xs ! j)) \<and> (i < length xs \<longrightarrow> \<not> P (xs ! i))"
proof (induction xs arbitrary: i)
  case Nil
  then show ?case by auto
next
  case (Cons x xs)
  show ?case
  proof (cases i)
    case 0
    then show ?thesis by auto
  next
    case (Suc n)
    then show ?thesis using Cons.IH [of n]
      by (auto simp: less_Suc_eq_0_disj)
  qed
qed

lemma sum_list_take_mono:
  assumes "\<forall>w\<in>set ws. (0::int) \<le> w" "i \<le> j"
  shows "sum_list (take i ws) \<le> sum_list (take j ws)"
proof -
  have "take j ws = take i ws @ take (j - i) (drop i ws)"
    using assms(2) by (metis le_add_diff_inverse take_add)
  moreover have "0 \<le> sum_list (take (j - i) (drop i ws))"
    using assms(1) by (intro sum_list_nonneg) (auto dest!: in_set_takeD in_set_dropD)
  ultimately show ?thesis by simp
qed

lemma bisect_accumulate:
  assumes pos: "\<forall>w\<in>set ws. (0::int) \<le> w"
    and i: "i < length ws"
  shows "bisect (accumulate 0 ws) x (length ws - 1) = i \<longleftrightarrow>
           (i = 0 \<or> real_of_int (sum_list (take i ws)) \<le> x) \<and>
           (Suc i = length ws \<or> x < real_of_int (sum_list (take (Suc i) ws)))"
proof -
  let ?a = "accumulate 0 ws"
  let ?n = "length ws"
  have nth: "\<And>j. j < ?n \<Longrightarrow> ?a ! j = sum_list (take (Suc j) ws)"
    by (simp add: accumulate_nth)
  have len: "length (take (?n - 1) ?a) = ?n - 1"
    by (simp add: length_accumulate)
  have tk: "\<And>j. j < ?n - 1 \<Longrightarrow> take (?n - 1) ?a ! j = sum_list (take (Suc j) ws)"
    by (simp add: nth)
  have lower: "(\<forall>j<i. real_of_int (sum_list (take (Suc j) ws)) \<le> x) \<longleftrightarrow>
                 (i = 0 \<or> real_of_int (sum_list (take i ws)) \<le> x)"
  proof (cases i)
    case 0
    then show ?thesis by simp
  next
    case (Suc m)
    have "\<And>j. j < i \<Longrightarrow> sum_list (take (Suc j) ws) \<le> sum_list (take i ws)"
      using sum_list_take_mono [OF pos] by (simp add: Suc_leI)
    then have "real_of_int (sum_list (take i ws)) \<le> x \<Longrightarrow>
                 \<forall>j<i. real_of_int (sum_list (take (Suc j) ws)) \<le> x"
      by (meson of_int_le_iff order_trans)
    moreover have "\<forall>j<i. real_of_int (sum_list (take (Suc j) ws)) \<le> x \<Longrightarrow>
                     real_of_int (sum_list (take i ws)) \<le> x"
      using Suc by auto
    ultimately show ?thesis using Suc by blast
  qed
  have upper: "(i < ?n - 1 \<longrightarrow> \<not> real_of_int (sum_list (take (Suc i) ws)) \<le> x) \<longleftrightarrow>
                 (Suc i = ?n \<or> x < real_of_int (sum_list (take (Suc i) ws)))"
    using i by auto
  have "bisect ?a x (?n - 1) = i \<longleftrightarrow>
          i \<le> ?n - 1 \<and> (\<forall>j<i. real_of_int (take (?n - 1) ?a ! j) \<le> x) \<and>
          (i < ?n - 1 \<longrightarrow> \<not> real_of_int (take (?n - 1) ?a ! i) \<le> x)"
    unfolding bisect_def length_takeWhile_eq_iff len ..
  also have "\<dots> \<longleftrightarrow> (\<forall>j<i. real_of_int (sum_list (take (Suc j) ws)) \<le> x) \<and>
          (i < ?n - 1 \<longrightarrow> \<not> real_of_int (sum_list (take (Suc i) ws)) \<le> x)"
    using i tk by auto
  also have "\<dots> \<longleftrightarrow> (i = 0 \<or> real_of_int (sum_list (take i ws)) \<le> x) \<and>
      (Suc i = ?n \<or> x < real_of_int (sum_list (take (Suc i) ws)))"
    unfolding lower upper ..
  finally show ?thesis .
qed

lemma bisect_le: "bisect a x hi \<le> hi"
proof -
  have "length (takeWhile (\<lambda>c. real_of_int c \<le> x) (take hi a)) \<le> length (take hi a)"
    by (rule length_takeWhile_le)
  then show ?thesis by (simp add: bisect_def)
qed


lemma sum_list_ge_length:
  "\<forall>w\<in>set ws. (1::int) \<le> w \<Longrightarrow> int (length ws) \<le> sum_list ws"
  by (induction ws) auto

lemma draw_index:
  assumes "pool \<noteq> []"
  shows "draw pool product =
           Inr (pool ! bisect (accumulate 0 (map (\<lambda>i. max 1 (weight i)) pool))
                          (product (cum_weight pool (length pool)))
                          (length pool - 1))"
proof -
  let ?ws = "map (\<lambda>i. max 1 (weight i)) pool"
  have ne: "?ws \<noteq> []" using assms by simp
  have "int (length ?ws) \<le> sum_list ?ws"
    by (rule sum_list_ge_length) auto
  then have tot: "0 < sum_list ?ws" using ne by (cases pool) auto
  show ?thesis
    using ne tot
    by (simp add: draw_def choices_def length_accumulate accumulate_Nil_iff
        last_accumulate cum_weight_def Let_def)
qed

lemma draw_in_pool:
  assumes "pool \<noteq> []"
  shows "\<exists>c \<in> set pool. draw pool product = Inr c"
proof -
  have "bisect (accumulate 0 (map (\<lambda>i. max 1 (weight i)) pool))
          (product (cum_weight pool (length pool))) (length pool - 1) < length pool"
    using bisect_le [of _ _ "length pool - 1"] assms
    by (metis diff_less length_greater_0_conv less_one order_le_less_trans)
  then show ?thesis
    using draw_index [OF assms, of product] nth_mem by auto
qed

lemma cum_weight_Suc:
  "i < length pool \<Longrightarrow> cum_weight pool (Suc i) = cum_weight pool i + max 1 (weight (pool ! i))"
  by (simp add: cum_weight_def take_Suc_conv_app_nth)

lemma cum_weight_total_pos: "pool \<noteq> [] \<Longrightarrow> 0 < cum_weight pool (length pool)"
proof -
  assume ne: "pool \<noteq> []"
  have "int (length (map (\<lambda>i. max 1 (weight i)) pool)) \<le> sum_list (map (\<lambda>i. max 1 (weight i)) pool)"
    by (rule sum_list_ge_length) auto
  then show ?thesis using ne by (cases pool) (auto simp: cum_weight_def)
qed

lemma draw_region:
  assumes ne: "i < length pool"
    and ids: "distinct (map item_id pool)"
  shows "draw pool product = Inr (pool ! i) \<longleftrightarrow>
           (i = 0 \<or> real_of_int (cum_weight pool i) \<le> product (cum_weight pool (length pool))) \<and>
           (Suc i = length pool \<or>
            product (cum_weight pool (length pool)) < real_of_int (cum_weight pool (Suc i)))"
proof -
  let ?ws = "map (\<lambda>i. max 1 (weight i)) pool"
  let ?x = "product (cum_weight pool (length pool))"
  let ?b = "bisect (accumulate 0 ?ws) ?x (length pool - 1)"
  have pne: "pool \<noteq> []" using ne by auto
  have dist: "distinct pool" using ids by (simp add: distinct_map)
  have blt: "?b < length pool"
    using bisect_le [of _ _ "length pool - 1"] pne
    by (metis diff_less length_greater_0_conv less_one order_le_less_trans)
  have "draw pool product = Inr (pool ! i) \<longleftrightarrow> pool ! ?b = pool ! i"
    using draw_index [OF pne, of product] by simp
  also have "\<dots> \<longleftrightarrow> ?b = i"
    using dist blt ne by (simp add: nth_eq_iff_index_eq)
  also have "\<dots> \<longleftrightarrow> (i = 0 \<or> real_of_int (sum_list (take i ?ws)) \<le> ?x) \<and>
      (Suc i = length ?ws \<or> ?x < real_of_int (sum_list (take (Suc i) ?ws)))"
  proof -
    have pos: "\<forall>w\<in>set ?ws. 0 \<le> w" by auto
    have il: "i < length ?ws" using ne by simp
    show ?thesis using bisect_accumulate [OF pos il] by simp
  qed
  finally show ?thesis
    by (simp add: cum_weight_def take_map)
qed

lemma draw_interval:
  assumes ne: "i < length pool"
    and ids: "distinct (map item_id pool)"
    and x0: "0 \<le> product (cum_weight pool (length pool))"
    and xt: "product (cum_weight pool (length pool)) < real_of_int (cum_weight pool (length pool))"
  shows "draw pool product = Inr (pool ! i) \<longleftrightarrow>
           real_of_int (cum_weight pool i) \<le> product (cum_weight pool (length pool)) \<and>
           product (cum_weight pool (length pool)) <
             real_of_int (cum_weight pool i + max 1 (weight (pool ! i)))"
proof -
  have zero: "i = 0 \<Longrightarrow> real_of_int (cum_weight pool i) \<le> product (cum_weight pool (length pool))"
    using x0 by (simp add: cum_weight_def)
  have last: "Suc i = length pool \<Longrightarrow>
      product (cum_weight pool (length pool)) < real_of_int (cum_weight pool (Suc i))"
    using xt by simp
  show ?thesis
    unfolding draw_region [OF ne ids] using zero last cum_weight_Suc [OF ne] by auto
qed

lemma pool_remove_filter:
  assumes "c \<in> set pool" "distinct (map item_id pool)"
  shows "pool_remove c pool = Inr (filter (\<lambda>x. x \<noteq> c) pool)"
  using assms
proof (induction pool)
  case Nil
  then show ?case by simp
next
  case (Cons x xs)
  show ?case
  proof (cases "x = c")
    case True
    then have "c \<notin> set xs" using Cons.prems(2) by auto
    then have "filter (\<lambda>x. x \<noteq> c) xs = xs" by (auto simp: filter_id_conv)
    with True show ?thesis by simp
  next
    case False
    then have "c \<in> set xs" using Cons.prems(1) by simp
    then have "item_id x \<noteq> item_id c" using Cons.prems(2) by auto
    then show ?thesis using Cons.IH \<open>c \<in> set xs\<close> Cons.prems(2) False by simp
  qed
qed

lemma select_items_same_draws:
  "(\<forall>j<k. rnd' (i + j) = rnd (i + j)) \<Longrightarrow>
     select_items rnd' i k pool acc = select_items rnd i k pool acc"
proof (induction k arbitrary: i pool acc)
  case 0
  then show ?case by simp
next
  case (Suc k)
  have r0: "rnd' i = rnd i" using Suc.prems [rule_format, of 0] by simp
  have "\<forall>j<k. rnd' (Suc i + j) = rnd (Suc i + j)"
    using Suc.prems by auto
  then have "\<And>pool' acc'. select_items rnd' (Suc i) k pool' acc' = select_items rnd (Suc i) k pool' acc'"
    by (rule Suc.IH)
  then show ?case by (simp add: r0 split: sum.splits)
qed

lemma select_items_sound:
  assumes "k \<le> length pool" "distinct (map item_id pool)"
  shows "\<exists>sel. select_items rnd i k pool acc = Inr (acc @ sel) \<and> length sel = k \<and>
           distinct sel \<and> set sel \<subseteq> set pool \<and>
           (\<forall>j<k. draw (filter (\<lambda>x. x \<notin> set (take j sel)) pool) (rnd (i + j)) = Inr (sel ! j))"
  using assms
proof (induction k arbitrary: i pool acc)
  case 0
  then show ?case by simp
next
  case (Suc k)
  then have pne: "pool \<noteq> []" by auto
  obtain c where c: "c \<in> set pool" "draw pool (rnd i) = Inr c"
    using draw_in_pool [OF pne] by blast
  let ?pool' = "filter (\<lambda>x. x \<noteq> c) pool"
  have rm: "pool_remove c pool = Inr ?pool'"
    using c(1) Suc.prems(2) by (rule pool_remove_filter)
  have dist: "distinct pool" using Suc.prems(2) by (simp add: distinct_map)
  have "length ?pool' = length pool - 1"
    using dist c(1)
    by (metis (mono_tags, lifting) distinct_remove1_removeAll length_remove1 removeAll_filter_not_eq
        filter_cong)
  then have len': "k \<le> length ?pool'" using Suc.prems(1) by simp
  have ids': "distinct (map item_id ?pool')"
    using Suc.prems(2) by (simp add: distinct_map_filter)
  obtain sel where sel:
    "select_items rnd (Suc i) k ?pool' (acc @ [c]) = Inr ((acc @ [c]) @ sel)"
    "length sel = k" "distinct sel" "set sel \<subseteq> set ?pool'"
    "\<forall>j<k. draw (filter (\<lambda>x. x \<notin> set (take j sel)) ?pool') (rnd (Suc i + j)) = Inr (sel ! j)"
    using Suc.IH [OF len' ids', of "Suc i" "acc @ [c]"] by blast
  have notin: "c \<notin> set sel" using sel(4) by auto
  have draws: "draw (filter (\<lambda>x. x \<notin> set (take j (c # sel))) pool) (rnd (i + j)) = Inr ((c # sel) ! j)"
    if "j < Suc k" for j
  proof (cases j)
    case 0
    then show ?thesis using c(2) by simp
  next
    case (Suc m)
    then have "m < k" using that by simp
    then have "draw (filter (\<lambda>x. x \<notin> set (take m sel)) ?pool') (rnd (Suc i + m)) = Inr (sel ! m)"
      using sel(5) by blast
    moreover have "filter (\<lambda>x. x \<notin> set (take m sel)) ?pool' =
        filter (\<lambda>x. x \<notin> set (take j (c # sel))) pool"
      using Suc by (auto intro: filter_cong)
    ultimately show ?thesis using Suc by simp
  qed
  have "select_items rnd i (Suc k) pool acc = Inr (acc @ (c # sel))"
    using c(2) rm sel(1) by simp
  moreover have "length (c # sel) = Suc k" using sel(2) by simp
  moreover have "distinct (c # sel)" using sel(3) notin by simp
  moreover have "set (c # sel) \<subseteq> set pool" using sel(4) c(1) by auto
  ultimately show ?case using draws by blast
qed

section \<open>The purchase\<close>

subsection \<open>Keys, lookups and the transaction\<close>

lemma fold_max_ge: "(a::int) \<le> fold max ids a"
  by (induction ids arbitrary: a) (auto intro: order_trans [OF max.cobounded2])

lemma fold_max_mem: "x \<in> set ids \<Longrightarrow> (x::int) \<le> fold max ids a"
proof (induction ids arbitrary: a)
  case Nil
  then show ?case by simp
next
  case (Cons y ys)
  show ?case
  proof (cases "x = y")
    case True
    have "max y a \<le> fold max ys (max y a)" by (rule fold_max_ge)
    then show ?thesis using True by simp
  next
    case False
    then show ?thesis using Cons by simp
  qed
qed

lemma next_pk_fresh: "next_pk ids \<notin> set ids"
  using fold_max_mem [of "next_pk ids" ids 0] by (auto simp: next_pk_def)







lemma purchase_refused:
  assumes "get_player d (player_pk pl) = Inr lp"
    and "money lp < price_snapshot (fst entry)"
    and "fault \<noteq> InTransaction GetFails"
  shows "buy_transaction d entry pl guild t fault = (TransactionInsufficientFunds, d)"
  using assms
  by (simp add: buy_transaction_def atomic_def purchase_body_def can_afford_def)

lemma purchase_rolls_back:
  "buy_transaction d entry pl guild t (InTransaction f) = (PurchaseError, d) \<or>
   buy_transaction d entry pl guild t (InTransaction f) = (TransactionInsufficientFunds, d)"
  by (cases f)
    (auto simp: buy_transaction_def atomic_def purchase_body_def Let_def split: sum.splits)

lemma purchase_changes_only_if_affordable:
  assumes "snd (buy_transaction d entry pl guild t fault) \<noteq> d"
  shows "\<exists>lp. get_player d (player_pk pl) = Inr lp \<and> price_snapshot (fst entry) \<le> money lp"
  using assms
  by (auto simp: buy_transaction_def atomic_def purchase_body_def Let_def can_afford_def
      split: sum.splits if_splits prod.splits response.splits)




lemma buy_without_async_unsafe:
  assumes "buy_checks d req t1 t2 = (Inr (entry, pl), d1)" "\<not> allow_async_unsafe d1"
  shows "buy d req t1 t2 t3 fault = (PurchaseError, d1)"
  using assms
  by (simp add: buy_def buy_transaction_def atomic_def purchase_body_def)


subsection \<open>The example store evaluated\<close>

lemmas ex_defs = ex_store_def ex_settings_def ex_common_def ex_rare_def ex_retired_def
  ex_expired_def ex_current_def ex_entries_def ex_alice_def ex_request_def
  ex_fresh_store_def ex_store_after_purchase_def











subsection \<open>Claim C1\<close>



subsection \<open>Claim C2\<close>

text \<open>
  C2. The transaction of \<^verbatim>\<open>buy\<close> reads the player again and checks the balance before
  it debits: a fault at any statement of the block leaves the store exactly as it was
  before the block and the caller gets a failure message; a locked balance below the
  price gives "Transaction failed: Insufficient funds." and an unchanged store, whatever
  the stale player object of the checks said; a player row that is gone gives the
  failure message and an unchanged store; and the store changes only when the balance
  read inside the block covers the price.
\<close>

theorem purchase_all_or_nothing:
  "(buy_transaction d entry pl guild t (InTransaction f) = (PurchaseError, d) \<or>
    buy_transaction d entry pl guild t (InTransaction f) = (TransactionInsufficientFunds, d)) \<and>
   (\<forall>lp. get_player d (player_pk pl) = Inr lp \<and> money lp < price_snapshot (fst entry) \<and>
      fault \<noteq> InTransaction GetFails \<longrightarrow>
      buy_transaction d entry pl guild t fault = (TransactionInsufficientFunds, d)) \<and>
   (\<forall>e. get_player d (player_pk pl) = Inl e \<longrightarrow>
      buy_transaction d entry pl guild t fault = (PurchaseError, d)) \<and>
   (snd (buy_transaction d entry pl guild t fault) \<noteq> d \<longrightarrow>
      (\<exists>lp. get_player d (player_pk pl) = Inr lp \<and> price_snapshot (fst entry) \<le> money lp))"
proof (intro conjI allI impI)
  show "buy_transaction d entry pl guild t (InTransaction f) = (PurchaseError, d) \<or>
    buy_transaction d entry pl guild t (InTransaction f) = (TransactionInsufficientFunds, d)"
    by (rule purchase_rolls_back)
next
  fix lp
  assume "get_player d (player_pk pl) = Inr lp \<and> money lp < price_snapshot (fst entry) \<and>
      fault \<noteq> InTransaction GetFails"
  then show "buy_transaction d entry pl guild t fault = (TransactionInsufficientFunds, d)"
    using purchase_refused [of d pl lp entry fault] by simp
next
  fix e
  assume "get_player d (player_pk pl) = Inl e"
  then show "buy_transaction d entry pl guild t fault = (PurchaseError, d)"
    by (simp add: buy_transaction_def atomic_def purchase_body_def)
next
  assume "snd (buy_transaction d entry pl guild t fault) \<noteq> d"
  then show "\<exists>lp. get_player d (player_pk pl) = Inr lp \<and> price_snapshot (fst entry) \<le> money lp"
    by (rule purchase_changes_only_if_affordable)
qed

theorem purchase_all_or_nothing_witness:
  "get_player ex_store (player_pk ex_alice) = Inr ex_alice \<and>
   money ex_alice < 150 \<and>
   buy_transaction ex_store
     (\<lparr>entry_id = 2, entry_rotation = 2, entry_item = 1, price_snapshot = 150\<rparr>, ex_common)
     ex_alice (Some 9) 2000 NoFault = (TransactionInsufficientFunds, ex_store) \<and>
   buy_transaction ex_store
     (\<lparr>entry_id = 2, entry_rotation = 2, entry_item = 1, price_snapshot = 80\<rparr>, ex_common)
     ex_alice (Some 9) 2000 (InTransaction LedgerFails) = (PurchaseError, ex_store)"
proof -
  have g: "get_player ex_store (player_pk ex_alice) = Inr ex_alice"
    by (simp add: get_player_def ex_defs)
  have m: "money ex_alice < 150" by (simp add: ex_defs)
  have a: "buy_transaction ex_store
     (\<lparr>entry_id = 2, entry_rotation = 2, entry_item = 1, price_snapshot = 150\<rparr>, ex_common)
     ex_alice (Some 9) 2000 NoFault = (TransactionInsufficientFunds, ex_store)"
    using purchase_all_or_nothing
      [of ex_store "(\<lparr>entry_id = 2, entry_rotation = 2, entry_item = 1, price_snapshot = 150\<rparr>,
          ex_common)" ex_alice "Some 9" 2000 LedgerFails NoFault] g m
    by simp
  have "80 \<le> money ex_alice" by (simp add: ex_defs)
  then have "buy_transaction ex_store
     (\<lparr>entry_id = 2, entry_rotation = 2, entry_item = 1, price_snapshot = 80\<rparr>, ex_common)
     ex_alice (Some 9) 2000 (InTransaction LedgerFails) \<noteq> (TransactionInsufficientFunds, ex_store)"
    using g
    by (simp add: buy_transaction_def atomic_def purchase_body_def can_afford_def Let_def)
  then have b: "buy_transaction ex_store
     (\<lparr>entry_id = 2, entry_rotation = 2, entry_item = 1, price_snapshot = 80\<rparr>, ex_common)
     ex_alice (Some 9) 2000 (InTransaction LedgerFails) = (PurchaseError, ex_store)"
    using purchase_all_or_nothing
      [of ex_store "(\<lparr>entry_id = 2, entry_rotation = 2, entry_item = 1, price_snapshot = 80\<rparr>,
          ex_common)" ex_alice "Some 9" 2000 LedgerFails NoFault]
    by blast
  show ?thesis using g m a b by blast
qed

subsection \<open>The steps of an attempt\<close>


lemma purchase_locked_keeps_host:
  "allow_async_unsafe (snd (purchase_locked entry lp guild t d)) = allow_async_unsafe d"
  by (simp add: purchase_locked_def save_player_def Let_def)









subsection \<open>Claim C6\<close>




section \<open>The rotation\<close>

subsection \<open>The most recent row, the active rotation\<close>

lemma afirst_desc_None: "afirst_desc c xs = None \<longleftrightarrow> xs = []"
  by (induction xs) (auto split: option.splits)

lemma afirst_desc_Some:
  "afirst_desc c xs = Some m \<Longrightarrow> m \<in> set xs \<and> (\<forall>x\<in>set xs. c x \<le> c m)"
proof (induction xs arbitrary: m)
  case Nil
  then show ?case by simp
next
  case (Cons x xs)
  show ?case
  proof (cases "afirst_desc c xs")
    case None
    then have "xs = []" by (simp add: afirst_desc_None)
    then show ?thesis using Cons.prems by simp
  next
    case (Some n)
    then have n: "n \<in> set xs" "\<forall>y\<in>set xs. c y \<le> c n" using Cons.IH by auto
    show ?thesis
    proof (cases "c x < c n")
      case True
      then have "m = n" using Cons.prems Some by simp
      then show ?thesis using n True by auto
    next
      case False
      then have "m = x" using Cons.prems Some by simp
      then show ?thesis using n False by (auto intro: order_trans)
    qed
  qed
qed

lemma afirst_desc_narrow:
  assumes "afirst_desc c (filter P xs) = Some r" "\<forall>x. Q x \<longrightarrow> P x" "Q r"
  shows "afirst_desc c (filter Q xs) = Some r"
  using assms(1)
proof (induction xs)
  case Nil
  then show ?case by simp
next
  case (Cons x xs)
  show ?case
  proof (cases "P x")
    case False
    then have "\<not> Q x" using assms(2) by blast
    then show ?thesis using Cons False by simp
  next
    case px: True
    show ?thesis
    proof (cases "afirst_desc c (filter P xs)")
      case None
      then have "filter P xs = []" by (simp add: afirst_desc_None)
      then have "filter Q xs = []" using assms(2) by (auto simp: filter_empty_conv)
      moreover have "r = x" using Cons.prems px None by simp
      ultimately show ?thesis using assms(3) by simp
    next
      case (Some m)
      note m = afirst_desc_Some [OF Some]
      show ?thesis
      proof (cases "c x < c m")
        case True
        then have rm: "r = m" using Cons.prems px Some by simp
        then have ih: "afirst_desc c (filter Q xs) = Some m" using Cons.IH Some by simp
        show ?thesis using ih True rm by simp
      next
        case False
        then have rx: "r = x" using Cons.prems px Some by simp
        then have qx: "Q x" using assms(3) by simp
        show ?thesis
        proof (cases "afirst_desc c (filter Q xs)")
          case None
          then show ?thesis using qx rx by simp
        next
          case (Some n)
          then have "n \<in> set (filter Q xs)" by (rule afirst_desc_Some [THEN conjunct1])
          then have "n \<in> set (filter P xs)" using assms(2) by auto
          then have "c n \<le> c m" using m by blast
          then have "\<not> c x < c n" using False by simp
          then show ?thesis using Some qx rx by simp
        qed
      qed
    qed
  qed
qed

lemma get_active_rotation_None:
  "get_active_rotation d now = None \<longleftrightarrow> (\<forall>r\<in>set (rotations d). ends_at r \<le> now)"
  by (auto simp: get_active_rotation_def afirst_desc_None filter_empty_conv not_less)

lemma get_active_rotation_Some:
  assumes "get_active_rotation d now = Some r"
  shows "r \<in> set (rotations d) \<and> now < ends_at r \<and>
         (\<forall>r'\<in>set (rotations d). now < ends_at r' \<longrightarrow> starts_at r' \<le> starts_at r)"
  using afirst_desc_Some [OF assms [unfolded get_active_rotation_def]] by auto

lemma get_active_rotation_later:
  assumes "get_active_rotation d now = Some r" "now \<le> now'" "now' < ends_at r"
  shows "get_active_rotation d now' = Some r"
  unfolding get_active_rotation_def
  by (rule afirst_desc_narrow [OF assms(1) [unfolded get_active_rotation_def]])
    (use assms(2,3) in auto)

subsection \<open>The writes of a new rotation\<close>

lemma select_items_length:
  "select_items rnd i k pool acc = Inr sel \<Longrightarrow> length sel = length acc + k"
proof (induction k arbitrary: i pool acc)
  case 0
  then show ?case by auto
next
  case (Suc k)
  then show ?case by (fastforce split: sum.splits)
qed

lemma length_new_entries: "length (new_entries pk rid sel) = length sel"
  by (induction sel arbitrary: pk) auto

lemma new_entries_nth:
  "i < length sel \<Longrightarrow>
     new_entries pk rid sel ! i =
       \<lparr>entry_id = pk + int i, entry_rotation = rid, entry_item = item_id (sel ! i),
        price_snapshot = price (sel ! i)\<rparr>"
proof (induction sel arbitrary: pk i)
  case Nil
  then show ?case by simp
next
  case (Cons a sel)
  then show ?case by (cases i) (auto simp: algebra_simps)
qed

lemma new_entries_rotation: "e \<in> set (new_entries pk rid sel) \<Longrightarrow> entry_rotation e = rid"
  by (induction sel arbitrary: pk) auto

lemma create_new_rotation_unfold:
  assumes "filter item_enabled (items d) \<noteq> []"
    and "select_items rnd 0
           (nat (min (items_per_rotation config) (int (length (filter item_enabled (items d))))))
           (filter item_enabled (items d)) [] = Inr sel"
  shows "create_new_rotation d config rnd now fault =
     (if fault = CreateFails then (Inl StoreFault, d)
      else if sel \<noteq> [] \<and> fault = BulkCreateFails
      then (Inl StoreFault,
            d\<lparr>rotations := rotations d @
               [\<lparr>rotation_id = next_pk (map rotation_id (rotations d)), starts_at = now,
                 ends_at = now + rotation_minutes config * 60000000\<rparr>]\<rparr>)
      else if fault = UpdateFails
      then (Inl StoreFault,
            d\<lparr>rotations := rotations d @
               [\<lparr>rotation_id = next_pk (map rotation_id (rotations d)), starts_at = now,
                 ends_at = now + rotation_minutes config * 60000000\<rparr>],
              rotation_items := rotation_items d @
                new_entries (next_pk (map entry_id (rotation_items d)))
                  (next_pk (map rotation_id (rotations d))) sel\<rparr>)
      else (Inr (Some \<lparr>rotation_id = next_pk (map rotation_id (rotations d)), starts_at = now,
                       ends_at = now + rotation_minutes config * 60000000\<rparr>),
            d\<lparr>rotations := rotations d @
               [\<lparr>rotation_id = next_pk (map rotation_id (rotations d)), starts_at = now,
                 ends_at = now + rotation_minutes config * 60000000\<rparr>],
              rotation_items := rotation_items d @
                new_entries (next_pk (map entry_id (rotation_items d)))
                  (next_pk (map rotation_id (rotations d))) sel,
              settings := (settings d)\<lparr>last_rotation_at := Some now\<rparr>\<rparr>))"
  using assms by (simp add: create_new_rotation_def Let_def)

lemma create_new_rotation_empty:
  "filter item_enabled (items d) = [] \<Longrightarrow>
     create_new_rotation d config rnd now fault = (Inr None, d)"
  by (simp add: create_new_rotation_def)

lemma create_new_rotation_created:
  assumes "create_new_rotation d config rnd now fault = (Inr (Some nr), d')"
  shows "\<exists>sel. select_items rnd 0
           (nat (min (items_per_rotation config) (int (length (filter item_enabled (items d))))))
           (filter item_enabled (items d)) [] = Inr sel \<and>
         filter item_enabled (items d) \<noteq> [] \<and>
         nr = \<lparr>rotation_id = next_pk (map rotation_id (rotations d)), starts_at = now,
               ends_at = now + rotation_minutes config * 60000000\<rparr> \<and>
         d' = d\<lparr>rotations := rotations d @ [nr],
                rotation_items := rotation_items d @
                  new_entries (next_pk (map entry_id (rotation_items d))) (rotation_id nr) sel,
                settings := (settings d)\<lparr>last_rotation_at := Some now\<rparr>\<rparr>"
proof -
  have ne: "filter item_enabled (items d) \<noteq> []"
    using assms create_new_rotation_empty [of d config rnd now fault] by auto
  obtain sel where sel: "select_items rnd 0
           (nat (min (items_per_rotation config) (int (length (filter item_enabled (items d))))))
           (filter item_enabled (items d)) [] = Inr sel"
    using assms ne by (auto simp: create_new_rotation_def Let_def split: sum.splits)
  show ?thesis
    using assms unfolding create_new_rotation_unfold [OF ne sel]
    by (intro exI [of _ sel]) (auto simp: sel ne split: if_splits)
qed

lemma ensure_rotation_cases:
  "ensure_rotation d tn tq tc rnd fault = (Inr None, d) \<or>
   (\<exists>r. ensure_rotation d tn tq tc rnd fault = (Inr (Some r), d)) \<or>
   ensure_rotation d tn tq tc rnd fault = create_new_rotation d (settings d) rnd tc fault"
  by (auto simp: ensure_rotation_def Let_def split: option.splits)

subsection \<open>The example store without a rotation\<close>

lemma ex_pool: "filter item_enabled (items ex_fresh_store) = [ex_common, ex_rare]"
  by (simp add: ex_defs)

lemma ex_draw_first: "draw [ex_common, ex_rare] (\<lambda>total. 0) = Inr ex_common"
  by (simp add: draw_def choices_def bisect_def ex_common_def ex_rare_def)

lemma ex_draw_second: "draw [ex_rare] (\<lambda>total. 0) = Inr ex_rare"
  by (simp add: draw_def choices_def bisect_def ex_rare_def)

text \<open>
  A product that is exactly a cumulative weight belongs to the next item, as
  \<^verbatim>\<open>bisect_right\<close> has it, and a product at or above the total to the last one.
\<close>

lemma ex_draw_boundary:
  "draw [ex_common, ex_rare] (\<lambda>total. 1) = Inr ex_rare"
  "draw [ex_common, ex_rare] (\<lambda>total. real_of_int total) = Inr ex_rare"
  by (simp_all add: draw_def choices_def bisect_def ex_common_def ex_rare_def)

lemma ex_selection:
  "select_items (\<lambda>n total. 0) 0 (Suc (Suc 0)) [ex_common, ex_rare] [] = Inr [ex_common, ex_rare]"
proof -
  have r1: "pool_remove ex_common [ex_common, ex_rare] = Inr [ex_rare]" by simp
  have r2: "pool_remove ex_rare [ex_rare] = Inr []" by simp
  show ?thesis by (simp add: ex_draw_first ex_draw_second r1 r2)
qed

lemma ex_count:
  "nat (min (items_per_rotation ex_settings) (int (length [ex_common, ex_rare]))) = Suc (Suc 0)"
  by (simp add: ex_settings_def)

lemma ex_selected:
  "select_items (\<lambda>n total. 0) 0
     (nat (min (items_per_rotation ex_settings)
        (int (length (filter item_enabled (items ex_fresh_store))))))
     (filter item_enabled (items ex_fresh_store)) [] = Inr [ex_common, ex_rare]"
  unfolding ex_pool ex_count by (rule ex_selection)

lemma ex_nonempty: "filter item_enabled (items ex_fresh_store) \<noteq> []"
  by (simp add: ex_pool)

lemmas ex_create = create_new_rotation_unfold [OF ex_nonempty ex_selected]

lemma ex_fresh_ensure:
  "ensure_rotation ex_fresh_store 2000 2000 2000 (\<lambda>n total. 0) fault =
     create_new_rotation ex_fresh_store ex_settings (\<lambda>n total. 0) 2000 fault"
  by (simp add: ensure_rotation_def get_active_rotation_def Let_def ex_defs)

subsection \<open>Claim C3\<close>

lemma map_entry_item_new_entries: "map entry_item (new_entries pk rid sel) = map item_id sel"
  by (induction sel arbitrary: pk) auto

lemma create_new_rotation_same_draws:
  assumes "\<forall>j<nat (min (items_per_rotation config)
             (int (length (filter item_enabled (items d))))). rnd' j = rnd j"
  shows "create_new_rotation d config rnd' now fault = create_new_rotation d config rnd now fault"
proof -
  have "select_items rnd' 0
      (nat (min (items_per_rotation config) (int (length (filter item_enabled (items d))))))
      (filter item_enabled (items d)) [] =
    select_items rnd 0
      (nat (min (items_per_rotation config) (int (length (filter item_enabled (items d))))))
      (filter item_enabled (items d)) []"
    by (rule select_items_same_draws) (use assms in simp)
  then show ?thesis by (simp add: create_new_rotation_def Let_def)
qed

text \<open>
  C3. For a catalog with at least one enabled item (and distinct primary keys),
  \<^verbatim>\<open>_create_new_rotation\<close> creates a rotation whose line items are, in order, the items of
  a selection of exactly \<open>k = min(items_per_rotation, N)\<close> items (none for a negative \<open>k\<close>,
  where \<^verbatim>\<open>range(k)\<close> is empty), pairwise distinct and all enabled items of the catalog.
  The \<open>j\<close>-th selected item is the draw, with the \<open>j\<close>-th random value, from the pool without
  the items selected before. In such a draw the item at index \<open>i\<close> of the remaining pool is
  chosen exactly when the floating-point product \<^verbatim>\<open>random() * total\<close> is at least the
  weight before it (\<open>max 1 weight\<close>, summed) and below that sum plus \<open>max 1 (weight item)\<close>,
  the first item also taking what lies below and the last what lies above: among the
  products in \<open>[0, total)\<close> each item has an interval of length \<open>max 1 (weight item)\<close>. A
  random source that gives the same first \<open>k\<close> values creates the same rotation.
\<close>

theorem rotation_selection_exact_distinct_weighted_reproducible:
  fixes d :: db and config :: merchant_settings and rnd :: random_source and now :: time
  defines "pool \<equiv> filter item_enabled (items d)"
  defines "k \<equiv> min (items_per_rotation config) (int (length pool))"
  assumes nonempty: "pool \<noteq> []"
    and keys: "distinct (map item_id (items d))"
  shows "\<exists>sel nr d'.
           create_new_rotation d config rnd now NoRotationFault = (Inr (Some nr), d') \<and>
           map entry_item (drop (length (rotation_items d)) (rotation_items d')) =
             map item_id sel \<and>
           length sel = nat k \<and>
           (0 \<le> items_per_rotation config \<longrightarrow> int (length sel) = k) \<and>
           distinct (map item_id sel) \<and> set sel \<subseteq> set pool \<and>
           (\<forall>j<nat k.
              let remaining = filter (\<lambda>x. x \<notin> set (take j sel)) pool;
                  total = cum_weight remaining (length remaining)
              in draw remaining (rnd j) = Inr (sel ! j) \<and>
                 (\<forall>product i. i < length remaining \<longrightarrow>
                    (draw remaining product = Inr (remaining ! i) \<longleftrightarrow>
                       (i = 0 \<or> real_of_int (cum_weight remaining i) \<le> product total) \<and>
                       (Suc i = length remaining \<or>
                        product total <
                          real_of_int (cum_weight remaining i + max 1 (weight (remaining ! i)))))) \<and>
                 (\<forall>product i. i < length remaining \<and> 0 \<le> product total \<and>
                      product total < real_of_int total \<longrightarrow>
                    (draw remaining product = Inr (remaining ! i) \<longleftrightarrow>
                       real_of_int (cum_weight remaining i) \<le> product total \<and>
                       product total <
                         real_of_int (cum_weight remaining i + max 1 (weight (remaining ! i)))))) \<and>
           (\<forall>rnd' fault. (\<forall>j<nat k. rnd' j = rnd j) \<longrightarrow>
              create_new_rotation d config rnd' now fault =
              create_new_rotation d config rnd now fault)"
proof -
  have ids: "distinct (map item_id pool)"
    using keys by (simp add: pool_def distinct_map_filter)
  have kle: "nat k \<le> length pool"
    by (simp add: k_def)
  obtain sel where sel:
    "select_items rnd 0 (nat k) pool [] = Inr ([] @ sel)" "length sel = nat k"
    "distinct sel" "set sel \<subseteq> set pool"
    "\<forall>j<nat k. draw (filter (\<lambda>x. x \<notin> set (take j sel)) pool) (rnd (0 + j)) = Inr (sel ! j)"
    using select_items_sound [OF kle ids, of rnd 0 "[]"] by blast
  let ?nr = "\<lparr>rotation_id = next_pk (map rotation_id (rotations d)), starts_at = now,
              ends_at = now + rotation_minutes config * 60000000\<rparr>"
  let ?es = "new_entries (next_pk (map entry_id (rotation_items d))) (rotation_id ?nr) sel"
  let ?d' = "d\<lparr>rotations := rotations d @ [?nr], rotation_items := rotation_items d @ ?es,
               settings := (settings d)\<lparr>last_rotation_at := Some now\<rparr>\<rparr>"
  have sel': "select_items rnd 0
      (nat (min (items_per_rotation config) (int (length (filter item_enabled (items d))))))
      (filter item_enabled (items d)) [] = Inr sel"
    using sel(1) by (simp add: k_def pool_def)
  have created: "create_new_rotation d config rnd now NoRotationFault = (Inr (Some ?nr), ?d')"
    using create_new_rotation_unfold [OF nonempty [unfolded pool_def] sel', of now NoRotationFault]
    by simp
  have rows: "map entry_item (drop (length (rotation_items d)) (rotation_items ?d')) =
      map item_id sel"
    by (simp add: map_entry_item_new_entries)
  have count: "0 \<le> items_per_rotation config \<longrightarrow> int (length sel) = k"
    using sel(2) by (simp add: k_def)
  have inj: "inj_on item_id (set pool)"
    using ids by (simp add: distinct_map)
  have dsel: "distinct (map item_id sel)"
    using sel(3,4) inj by (simp add: distinct_map inj_on_subset)
  have rem_ids: "distinct (map item_id (filter (\<lambda>x. x \<notin> set (take j sel)) pool))" for j
    using ids by (simp add: distinct_map_filter)
  have draws: "let remaining = filter (\<lambda>x. x \<notin> set (take j sel)) pool;
                  total = cum_weight remaining (length remaining)
              in draw remaining (rnd j) = Inr (sel ! j) \<and>
                 (\<forall>product i. i < length remaining \<longrightarrow>
                    (draw remaining product = Inr (remaining ! i) \<longleftrightarrow>
                       (i = 0 \<or> real_of_int (cum_weight remaining i) \<le> product total) \<and>
                       (Suc i = length remaining \<or>
                        product total <
                          real_of_int (cum_weight remaining i + max 1 (weight (remaining ! i)))))) \<and>
                 (\<forall>product i. i < length remaining \<and> 0 \<le> product total \<and>
                      product total < real_of_int total \<longrightarrow>
                    (draw remaining product = Inr (remaining ! i) \<longleftrightarrow>
                       real_of_int (cum_weight remaining i) \<le> product total \<and>
                       product total <
                         real_of_int (cum_weight remaining i + max 1 (weight (remaining ! i)))))"
    if j: "j < nat k" for j
  proof -
    let ?rem = "filter (\<lambda>x. x \<notin> set (take j sel)) pool"
    have one: "draw ?rem (rnd j) = Inr (sel ! j)" using sel(5) j by simp
    have two: "draw ?rem product = Inr (?rem ! i) \<longleftrightarrow>
        (i = 0 \<or> real_of_int (cum_weight ?rem i) \<le> product (cum_weight ?rem (length ?rem))) \<and>
        (Suc i = length ?rem \<or>
         product (cum_weight ?rem (length ?rem)) <
           real_of_int (cum_weight ?rem i + max 1 (weight (?rem ! i))))"
      if "i < length ?rem" for product i
      using draw_region [OF that rem_ids, of product] cum_weight_Suc [OF that] by simp
    have three: "draw ?rem product = Inr (?rem ! i) \<longleftrightarrow>
        real_of_int (cum_weight ?rem i) \<le> product (cum_weight ?rem (length ?rem)) \<and>
        product (cum_weight ?rem (length ?rem)) <
          real_of_int (cum_weight ?rem i + max 1 (weight (?rem ! i)))"
      if "i < length ?rem" "0 \<le> product (cum_weight ?rem (length ?rem))"
        "product (cum_weight ?rem (length ?rem)) < real_of_int (cum_weight ?rem (length ?rem))"
      for product i
      using that by (rule draw_interval [OF _ rem_ids])
    show ?thesis unfolding Let_def using one two three by blast
  qed
  have same: "create_new_rotation d config rnd' now fault =
      create_new_rotation d config rnd now fault"
    if "\<forall>j<nat k. rnd' j = rnd j" for rnd' fault
    using that unfolding k_def pool_def by (rule create_new_rotation_same_draws)
  show ?thesis
    using created rows sel(2) count dsel sel(4) draws same
    by (intro exI [of _ sel] exI [of _ ?nr] exI [of _ ?d']) blast
qed

text \<open>
  The example store without a rotation, where each product is half the total: the
  second catalog item is drawn first, the first one second.
\<close>

theorem rotation_selection_exact_distinct_weighted_reproducible_witness:
  "\<exists>nr d'. create_new_rotation ex_fresh_store ex_settings
              (\<lambda>n total. real_of_int total / 2) 2000 NoRotationFault = (Inr (Some nr), d') \<and>
           map entry_item (rotation_items d') = [2, 1]"
proof -
  let ?rnd = "\<lambda>(n::nat) total. real_of_int total / 2"
  have keys: "distinct (map item_id (items ex_fresh_store))"
    by (simp add: ex_defs)
  have d1: "draw [ex_common, ex_rare] (\<lambda>total. real_of_int total / 2) = Inr ex_rare"
    by (simp add: draw_def choices_def bisect_def ex_common_def ex_rare_def)
  have d2: "draw [ex_common] (\<lambda>total. real_of_int total / 2) = Inr ex_common"
    by (simp add: draw_def choices_def bisect_def ex_common_def)
  have r1: "pool_remove ex_rare [ex_common, ex_rare] = Inr [ex_common]"
    by (simp add: ex_common_def ex_rare_def)
  have r2: "pool_remove ex_common [ex_common] = Inr []" by simp
  have ne: "item_id ex_common \<noteq> item_id ex_rare"
    by (simp add: ex_common_def ex_rare_def)
  have chosen: "select_items ?rnd 0
     (nat (min (items_per_rotation ex_settings)
        (int (length (filter item_enabled (items ex_fresh_store))))))
     (filter item_enabled (items ex_fresh_store)) [] = Inr [ex_rare, ex_common]"
    unfolding ex_pool ex_count by (simp add: d1 d2 ne)
  have "\<exists>nr d'. create_new_rotation ex_fresh_store ex_settings ?rnd 2000 NoRotationFault =
      (Inr (Some nr), d')"
    using rotation_selection_exact_distinct_weighted_reproducible
      [OF ex_nonempty keys, of ex_settings ?rnd 2000]
    apply (elim exE conjE)
    apply (intro exI)
    apply assumption
    done
  then obtain nr d' where *:
    "create_new_rotation ex_fresh_store ex_settings ?rnd 2000 NoRotationFault = (Inr (Some nr), d')"
    by blast
  have "rotation_items d' =
      new_entries (next_pk (map entry_id (rotation_items ex_fresh_store)))
        (next_pk (map rotation_id (rotations ex_fresh_store))) [ex_rare, ex_common]"
    using * unfolding create_new_rotation_unfold [OF ex_nonempty chosen]
    by (auto simp: ex_fresh_store_def)
  then have m: "map entry_item (rotation_items d') = [2, 1]"
    by (simp add: ex_common_def ex_rare_def)
  show ?thesis
    by (rule exI [of _ nr], rule exI [of _ d']) (simp add: * m)
qed

subsection \<open>Claim C4\<close>

text \<open>
  C4, as amended. \<^verbatim>\<open>_create_new_rotation\<close> persists a new rotation by successive writes,
  the rotation row first and its line items second, with no transaction around them.
  For a catalog with an enabled item (and distinct primary keys), when no write fails the
  store holds the new rotation, with \<open>starts_at = now\<close> and
  \<open>ends_at = now + rotation_minutes\<close>, and exactly its \<open>k\<close> line items, each naming the
  rotation and a selected item with that item's current price as \<open>price_snapshot\<close>, and
  \<open>last_rotation_at = now\<close>. A failure of the first write leaves the store as it was; a
  failure of the second (with \<open>k > 0\<close>) leaves the rotation row without line items.
\<close>

theorem rotation_persisted_in_two_writes:
  fixes d :: db and config :: merchant_settings and rnd :: random_source and now :: time
  defines "pool \<equiv> filter item_enabled (items d)"
  defines "k \<equiv> min (items_per_rotation config) (int (length pool))"
  defines "nr \<equiv> \<lparr>rotation_id = next_pk (map rotation_id (rotations d)), starts_at = now,
                  ends_at = now + rotation_minutes config * 60000000\<rparr>"
  assumes nonempty: "pool \<noteq> []"
    and keys: "distinct (map item_id (items d))"
  shows "\<exists>sel es.
           select_items rnd 0 (nat k) pool [] = Inr sel \<and>
           create_new_rotation d config rnd now NoRotationFault =
             (Inr (Some nr),
              d\<lparr>rotations := rotations d @ [nr], rotation_items := rotation_items d @ es,
                settings := (settings d)\<lparr>last_rotation_at := Some now\<rparr>\<rparr>) \<and>
           length es = nat k \<and>
           (\<forall>i<nat k. entry_rotation (es ! i) = rotation_id nr \<and>
                      entry_item (es ! i) = item_id (sel ! i) \<and>
                      price_snapshot (es ! i) = price (sel ! i) \<and>
                      sel ! i \<in> set (items d)) \<and>
           create_new_rotation d config rnd now CreateFails = (Inl StoreFault, d) \<and>
           (0 < k \<longrightarrow> create_new_rotation d config rnd now BulkCreateFails =
                        (Inl StoreFault, d\<lparr>rotations := rotations d @ [nr]\<rparr>))"
proof -
  have ids: "distinct (map item_id pool)"
    using keys by (simp add: pool_def distinct_map_filter)
  have kle: "nat k \<le> length pool" by (simp add: k_def)
  obtain sel where sel: "select_items rnd 0 (nat k) pool [] = Inr sel" "length sel = nat k"
    "set sel \<subseteq> set pool"
    using select_items_sound [OF kle ids, of rnd 0 "[]"] by auto
  let ?es = "new_entries (next_pk (map entry_id (rotation_items d))) (rotation_id nr) sel"
  note unfold = create_new_rotation_unfold
    [OF nonempty [unfolded pool_def] sel(1) [unfolded k_def pool_def], of now]
  have ok: "create_new_rotation d config rnd now NoRotationFault =
             (Inr (Some nr),
              d\<lparr>rotations := rotations d @ [nr], rotation_items := rotation_items d @ ?es,
                settings := (settings d)\<lparr>last_rotation_at := Some now\<rparr>\<rparr>)"
    using unfold [of NoRotationFault] by (simp add: nr_def)
  have len: "length ?es = nat k" using sel(2) by (simp add: length_new_entries)
  have rows: "entry_rotation (?es ! i) = rotation_id nr \<and> entry_item (?es ! i) = item_id (sel ! i) \<and>
      price_snapshot (?es ! i) = price (sel ! i) \<and> sel ! i \<in> set (items d)" if "i < nat k" for i
  proof -
    have i: "i < length sel" using that sel(2) by simp
    then have "sel ! i \<in> set pool" using sel(3) nth_mem by blast
    then have "sel ! i \<in> set (items d)" by (simp add: pool_def)
    then show ?thesis using new_entries_nth [OF i] by simp
  qed
  have f1: "create_new_rotation d config rnd now CreateFails = (Inl StoreFault, d)"
    using unfold [of CreateFails] by simp
  have f2: "create_new_rotation d config rnd now BulkCreateFails =
              (Inl StoreFault, d\<lparr>rotations := rotations d @ [nr]\<rparr>)" if "0 < k"
  proof -
    have "sel \<noteq> []" using sel(2) that by auto
    then show ?thesis using unfold [of BulkCreateFails] by (simp add: nr_def)
  qed
  show ?thesis
    using sel(1) ok len rows f1 f2 by (intro exI [of _ sel] exI [of _ ?es]) blast
qed

theorem rotation_persisted_in_two_writes_witness:
  "create_new_rotation ex_fresh_store ex_settings (\<lambda>n total. 0) 2000 NoRotationFault =
     (Inr (Some \<lparr>rotation_id = 1, starts_at = 2000, ends_at = 3600002000\<rparr>),
      ex_fresh_store\<lparr>rotations := [\<lparr>rotation_id = 1, starts_at = 2000, ends_at = 3600002000\<rparr>],
        rotation_items :=
          [\<lparr>entry_id = 1, entry_rotation = 1, entry_item = 1, price_snapshot = 80\<rparr>,
           \<lparr>entry_id = 2, entry_rotation = 1, entry_item = 2, price_snapshot = 50\<rparr>],
        settings := ex_settings\<lparr>last_rotation_at := Some 2000\<rparr>\<rparr>) \<and>
   create_new_rotation ex_fresh_store ex_settings (\<lambda>n total. 0) 2000 CreateFails =
     (Inl StoreFault, ex_fresh_store)"
proof -
  have keys: "distinct (map item_id (items ex_fresh_store))"
    by (simp add: ex_defs)
  have "create_new_rotation ex_fresh_store ex_settings (\<lambda>n total. 0) 2000 CreateFails =
     (Inl StoreFault, ex_fresh_store)"
    using rotation_persisted_in_two_writes [OF ex_nonempty keys, of "\<lambda>n total. 0" ex_settings 2000]
    by blast
  moreover have "create_new_rotation ex_fresh_store ex_settings (\<lambda>n total. 0) 2000 NoRotationFault =
     (Inr (Some \<lparr>rotation_id = 1, starts_at = 2000, ends_at = 3600002000\<rparr>),
      ex_fresh_store\<lparr>rotations := [\<lparr>rotation_id = 1, starts_at = 2000, ends_at = 3600002000\<rparr>],
        rotation_items :=
          [\<lparr>entry_id = 1, entry_rotation = 1, entry_item = 1, price_snapshot = 80\<rparr>,
           \<lparr>entry_id = 2, entry_rotation = 1, entry_item = 2, price_snapshot = 50\<rparr>],
        settings := ex_settings\<lparr>last_rotation_at := Some 2000\<rparr>\<rparr>)"
    unfolding ex_create by (simp add: next_pk_def ex_defs)
  ultimately show ?thesis by blast
qed

text \<open>
  C4 as stated fails: when the bulk write of the line items fails, the rotation row stays,
  is the active rotation for a reader and has no line items.
\<close>

theorem rotation_not_atomic_counterexample:
  "ensure_rotation ex_fresh_store 2000 2000 2000 (\<lambda>n total. 0) BulkCreateFails =
     (Inl StoreFault,
      ex_fresh_store\<lparr>rotations := [\<lparr>rotation_id = 1, starts_at = 2000, ends_at = 3600002000\<rparr>]\<rparr>) \<and>
   get_active_rotation
     (ex_fresh_store\<lparr>rotations := [\<lparr>rotation_id = 1, starts_at = 2000, ends_at = 3600002000\<rparr>]\<rparr>)
     2001 = Some \<lparr>rotation_id = 1, starts_at = 2000, ends_at = 3600002000\<rparr> \<and>
   get_rotation_entries
     (ex_fresh_store\<lparr>rotations := [\<lparr>rotation_id = 1, starts_at = 2000, ends_at = 3600002000\<rparr>]\<rparr>)
     \<lparr>rotation_id = 1, starts_at = 2000, ends_at = 3600002000\<rparr> = []"
proof -
  have e: "cfg_enabled (settings ex_fresh_store)" "get_active_rotation ex_fresh_store 2000 = None"
    "settings ex_fresh_store = ex_settings"
    by (simp_all add: get_active_rotation_def ex_defs)
  have c: "create_new_rotation ex_fresh_store ex_settings (\<lambda>n total. 0) 2000 BulkCreateFails =
     (Inl StoreFault,
      ex_fresh_store\<lparr>rotations := [\<lparr>rotation_id = 1, starts_at = 2000, ends_at = 3600002000\<rparr>]\<rparr>)"
    unfolding ex_create by (simp add: next_pk_def ex_defs)
  have "ensure_rotation ex_fresh_store 2000 2000 2000 (\<lambda>n total. 0) BulkCreateFails =
     (Inl StoreFault,
      ex_fresh_store\<lparr>rotations := [\<lparr>rotation_id = 1, starts_at = 2000, ends_at = 3600002000\<rparr>]\<rparr>)"
    using e c by (simp add: ensure_rotation_def)
  then show ?thesis
    by (simp add: get_active_rotation_def get_rotation_entries_def map_filter_simps ex_defs)
qed

subsection \<open>Claim C5\<close>

text \<open>
  C5, as amended. When the merchant is enabled and a rotation with \<open>ends_at\<close> after the
  clock read of the query exists (the clock does not run backwards between the two reads
  of \<^verbatim>\<open>ensure_rotation\<close>), \<^verbatim>\<open>ensure_rotation\<close> returns an unexpired rotation of the store,
  the most recently started one, and leaves the store unchanged, whatever the random
  source and the faults of the writes it does not make; every later call while that
  rotation is unexpired returns the same rotation and changes nothing.
\<close>

theorem ensure_rotation_keeps_active:
  assumes enabled: "cfg_enabled (settings d)"
    and unexpired: "\<exists>r\<in>set (rotations d). t_query < ends_at r"
    and clock: "t_now \<le> t_query"
  shows "\<exists>r. ensure_rotation d t_now t_query t_create rnd fault = (Inr (Some r), d) \<and>
           r \<in> set (rotations d) \<and> t_query < ends_at r \<and>
           (\<forall>r'\<in>set (rotations d). t_query < ends_at r' \<longrightarrow> starts_at r' \<le> starts_at r) \<and>
           (\<forall>t_now' t_query' t_create' rnd' fault'.
              t_now' \<le> t_query' \<and> t_query \<le> t_query' \<and> t_query' < ends_at r \<longrightarrow>
              ensure_rotation d t_now' t_query' t_create' rnd' fault' = (Inr (Some r), d))"
proof -
  have "get_active_rotation d t_query \<noteq> None"
    using unexpired by (auto simp: get_active_rotation_None not_le)
  then obtain r where r: "get_active_rotation d t_query = Some r" by blast
  note props = get_active_rotation_Some [OF r]
  have now: "t_now < ends_at r" using props clock by simp
  have first: "ensure_rotation d t_now t_query t_create rnd fault = (Inr (Some r), d)"
    using enabled r now by (simp add: ensure_rotation_def)
  have again: "ensure_rotation d t_now' t_query' t_create' rnd' fault' = (Inr (Some r), d)"
    if "t_now' \<le> t_query'" "t_query \<le> t_query'" "t_query' < ends_at r"
    for t_now' t_query' t_create' rnd' fault'
  proof -
    have "get_active_rotation d t_query' = Some r"
      using r that(2,3) by (rule get_active_rotation_later)
    moreover have "t_now' < ends_at r" using that by simp
    ultimately show ?thesis using enabled by (simp add: ensure_rotation_def)
  qed
  show ?thesis using first props again by blast
qed

theorem ensure_rotation_keeps_active_witness:
  "ensure_rotation ex_store 2000 2000 2000 (\<lambda>n total. 0) NoRotationFault = (Inr (Some ex_current), ex_store) \<and>
   ensure_rotation ex_store 3000 3001 3002 (\<lambda>n total. real_of_int total / 2) CreateFails = (Inr (Some ex_current), ex_store)"
proof -
  have enabled: "cfg_enabled (settings ex_store)" by (simp add: ex_defs)
  have unexpired: "\<exists>r\<in>set (rotations ex_store). 2000 < ends_at r" by (simp add: ex_defs)
  obtain r where r: "ensure_rotation ex_store 2000 2000 2000 (\<lambda>n total. 0) NoRotationFault = (Inr (Some r), ex_store)"
    "r \<in> set (rotations ex_store)" "2000 < ends_at r"
    "\<forall>t_now' t_query' t_create' rnd' fault'.
              t_now' \<le> t_query' \<and> 2000 \<le> t_query' \<and> t_query' < ends_at r \<longrightarrow>
              ensure_rotation ex_store t_now' t_query' t_create' rnd' fault' = (Inr (Some r), ex_store)"
    using ensure_rotation_keeps_active [OF enabled unexpired order_refl, of 2000 "\<lambda>n total. 0" NoRotationFault]
    by blast
  have "r = ex_current" using r(2,3) by (auto simp: ex_defs)
  then show ?thesis using r(1) r(4) [rule_format, of 3000 3001 3002 "\<lambda>n total. real_of_int total / 2" CreateFails]
    by (simp add: ex_defs)
qed

text \<open>
  C5 as stated fails on a disabled merchant: an unexpired rotation exists and
  \<^verbatim>\<open>ensure_rotation\<close> returns \<^verbatim>\<open>None\<close>.
\<close>

theorem ensure_rotation_disabled_counterexample:
  "ex_current \<in> set (rotations (ex_store\<lparr>settings := ex_settings\<lparr>cfg_enabled := False\<rparr>\<rparr>)) \<and>
   2000 < ends_at ex_current \<and>
   ensure_rotation (ex_store\<lparr>settings := ex_settings\<lparr>cfg_enabled := False\<rparr>\<rparr>) 2000 2000 2000
     (\<lambda>n total. 0) NoRotationFault =
     (Inr None, ex_store\<lparr>settings := ex_settings\<lparr>cfg_enabled := False\<rparr>\<rparr>)"
  by (simp add: ensure_rotation_def ex_defs)

subsection \<open>Claim C9\<close>

text \<open>
  C9, as amended. With no enabled catalog item \<^verbatim>\<open>ensure_rotation\<close> leaves the store
  unchanged, and returns \<^verbatim>\<open>None\<close> when no rotation is active. Every rotation it creates
  and returns comes with exactly \<open>min(items_per_rotation, enabled items)\<close> line items (none
  when that is not positive), all naming the new rotation, whose key no earlier rotation
  has: at least one and at most that minimum whenever \<open>items_per_rotation \<ge> 1\<close>.
\<close>

theorem created_rotation_line_items:
  fixes d :: db
  defines "n_enabled \<equiv> int (length (filter item_enabled (items d)))"
  defines "k \<equiv> min (items_per_rotation (settings d)) n_enabled"
  shows
  "(n_enabled = 0 \<longrightarrow>
      snd (ensure_rotation d t_now t_query t_create rnd fault) = d \<and>
      (get_active_rotation d t_query = None \<longrightarrow>
         fst (ensure_rotation d t_now t_query t_create rnd fault) = Inr None)) \<and>
   (\<forall>nr d'. ensure_rotation d t_now t_query t_create rnd fault = (Inr (Some nr), d') \<and> d' \<noteq> d \<longrightarrow>
      (\<exists>es. rotations d' = rotations d @ [nr] \<and> rotation_items d' = rotation_items d @ es \<and>
            (\<forall>e\<in>set es. entry_rotation e = rotation_id nr) \<and>
            (\<forall>r\<in>set (rotations d). rotation_id r \<noteq> rotation_id nr) \<and>
            length es = nat k \<and>
            (1 \<le> items_per_rotation (settings d) \<longrightarrow> 1 \<le> length es \<and> int (length es) \<le> k)))"
proof (intro conjI allI impI)
  assume "n_enabled = 0"
  then have empty: "filter item_enabled (items d) = []" by (simp add: n_enabled_def)
  show "snd (ensure_rotation d t_now t_query t_create rnd fault) = d"
    using ensure_rotation_cases [of d t_now t_query t_create rnd fault]
      create_new_rotation_empty [OF empty] by auto
  show "fst (ensure_rotation d t_now t_query t_create rnd fault) = Inr None"
    if "get_active_rotation d t_query = None"
    using that create_new_rotation_empty [OF empty] by (simp add: ensure_rotation_def Let_def)
next
  fix nr d'
  assume a: "ensure_rotation d t_now t_query t_create rnd fault = (Inr (Some nr), d') \<and> d' \<noteq> d"
  then have "create_new_rotation d (settings d) rnd t_create fault = (Inr (Some nr), d')"
    using ensure_rotation_cases [of d t_now t_query t_create rnd fault] by auto
  then obtain sel where sel: "select_items rnd 0 (nat k) (filter item_enabled (items d)) [] = Inr sel"
    and ne: "filter item_enabled (items d) \<noteq> []"
    and nr: "rotation_id nr = next_pk (map rotation_id (rotations d))"
    and d': "d' = d\<lparr>rotations := rotations d @ [nr],
                rotation_items := rotation_items d @
                  new_entries (next_pk (map entry_id (rotation_items d))) (rotation_id nr) sel,
                settings := (settings d)\<lparr>last_rotation_at := Some t_create\<rparr>\<rparr>"
    using create_new_rotation_created [of d "settings d" rnd t_create fault nr d']
    unfolding k_def n_enabled_def by auto
  let ?es = "new_entries (next_pk (map entry_id (rotation_items d))) (rotation_id nr) sel"
  have len: "length ?es = nat k"
    using select_items_length [OF sel] by (simp add: length_new_entries)
  have fresh: "\<forall>r\<in>set (rotations d). rotation_id r \<noteq> rotation_id nr"
    using next_pk_fresh [of "map rotation_id (rotations d)"] nr by (auto simp: image_iff)
  have "1 \<le> n_enabled" using ne by (cases "filter item_enabled (items d)") (auto simp: n_enabled_def)
  then have bounds: "1 \<le> length ?es \<and> int (length ?es) \<le> k"
    if "1 \<le> items_per_rotation (settings d)"
    using that len by (simp add: k_def)
  show "\<exists>es. rotations d' = rotations d @ [nr] \<and> rotation_items d' = rotation_items d @ es \<and>
            (\<forall>e\<in>set es. entry_rotation e = rotation_id nr) \<and>
            (\<forall>r\<in>set (rotations d). rotation_id r \<noteq> rotation_id nr) \<and>
            length es = nat k \<and>
            (1 \<le> items_per_rotation (settings d) \<longrightarrow> 1 \<le> length es \<and> int (length es) \<le> k)"
    using len fresh bounds by (intro exI [of _ ?es]) (auto simp: d' new_entries_rotation)
qed

theorem created_rotation_line_items_witness:
  "\<exists>nr d' es. ensure_rotation ex_fresh_store 2000 2000 2000 (\<lambda>n total. 0) NoRotationFault =
       (Inr (Some nr), d') \<and> d' \<noteq> ex_fresh_store \<and>
     rotation_items d' = rotation_items ex_fresh_store @ es \<and> length es = 2"
proof -
  let ?nr = "\<lparr>rotation_id = 1, starts_at = 2000, ends_at = 3600002000\<rparr>"
  let ?d' = "ex_fresh_store\<lparr>rotations := [?nr],
        rotation_items :=
          [\<lparr>entry_id = 1, entry_rotation = 1, entry_item = 1, price_snapshot = 80\<rparr>,
           \<lparr>entry_id = 2, entry_rotation = 1, entry_item = 2, price_snapshot = 50\<rparr>],
        settings := ex_settings\<lparr>last_rotation_at := Some 2000\<rparr>\<rparr>"
  have run: "ensure_rotation ex_fresh_store 2000 2000 2000 (\<lambda>n total. 0) NoRotationFault =
     (Inr (Some ?nr), ?d')"
    unfolding ex_fresh_ensure ex_create by (simp add: next_pk_def ex_defs)
  have changed: "?d' \<noteq> ex_fresh_store"
    by (simp add: ex_defs)
  have k: "nat (min (items_per_rotation (settings ex_fresh_store))
             (int (length (filter item_enabled (items ex_fresh_store))))) = 2"
    by (simp add: ex_defs)
  obtain es where "rotation_items ?d' = rotation_items ex_fresh_store @ es" "length es = 2"
    using created_rotation_line_items
      [of ex_fresh_store 2000 2000 2000 "\<lambda>n total. 0" NoRotationFault] run changed
    unfolding k by blast
  then show ?thesis using run changed by blast
qed

text \<open>
  C9 as stated fails for \<open>items_per_rotation = 0\<close>: two items are enabled, and
  \<^verbatim>\<open>ensure_rotation\<close> persists and returns a rotation with no line item.
\<close>

theorem empty_rotation_counterexample:
  "filter item_enabled
     (items (ex_fresh_store\<lparr>settings := ex_settings\<lparr>items_per_rotation := 0\<rparr>\<rparr>)) =
     [ex_common, ex_rare] \<and>
   ensure_rotation (ex_fresh_store\<lparr>settings := ex_settings\<lparr>items_per_rotation := 0\<rparr>\<rparr>)
     2000 2000 2000 (\<lambda>n total. 0) NoRotationFault =
     (Inr (Some \<lparr>rotation_id = 1, starts_at = 2000, ends_at = 3600002000\<rparr>),
      ex_fresh_store\<lparr>rotations := [\<lparr>rotation_id = 1, starts_at = 2000, ends_at = 3600002000\<rparr>],
        rotation_items := [],
        settings := ex_settings\<lparr>items_per_rotation := 0, last_rotation_at := Some 2000\<rparr>\<rparr>)"
  by (simp add: ensure_rotation_def get_active_rotation_def create_new_rotation_def
      next_pk_def Let_def ex_defs)

section \<open>The checks of the purchase\<close>

subsection \<open>The rejections, one by one\<close>

lemma get_rotation_entries_mem:
  "x \<in> set (get_rotation_entries d r) \<Longrightarrow>
     fst x \<in> set (rotation_items d) \<and> entry_rotation (fst x) = rotation_id r"
  by (auto simp: get_rotation_entries_def map_filter_def split: if_splits option.splits)

lemma buy_transaction_response:
  "fst (buy_transaction d entry pl guild t fault) = PurchaseError \<or>
   fst (buy_transaction d entry pl guild t fault) = TransactionInsufficientFunds \<or>
   (\<exists>inst. fst (buy_transaction d entry pl guild t fault) = Success inst)"
  by (auto simp: buy_transaction_def atomic_def purchase_body_def Let_def
      split: sum.splits prod.splits response.splits if_splits)

lemma buy_disabled: "\<not> cfg_enabled (settings d) \<Longrightarrow> buy d req t1 t2 t3 fault = (Disabled, d)"
  by (simp add: buy_def buy_checks_def)

lemma buy_no_rotation:
  "cfg_enabled (settings d) \<Longrightarrow> get_active_rotation d t1 = None \<Longrightarrow>
     buy d req t1 t2 t3 fault = (NoRotation, d)"
  by (simp add: buy_def buy_checks_def)

lemma buy_not_found:
  "cfg_enabled (settings d) \<Longrightarrow> get_active_rotation d t1 = Some r \<Longrightarrow>
   find (\<lambda>e. entry_id (fst e) = req_item_id req) (get_rotation_entries d r) = None \<Longrightarrow>
     buy d req t1 t2 t3 fault = (NotFound, d)"
  by (simp add: buy_def buy_checks_def)

lemma buy_throttled:
  "cfg_enabled (settings d) \<Longrightarrow> get_active_rotation d t1 = Some r \<Longrightarrow>
   find (\<lambda>e. entry_id (fst e) = req_item_id req) (get_rotation_entries d r) = Some entry \<Longrightarrow>
   aget_or_create d (user_id req) = (p, d1) \<Longrightarrow>
   get_cooldown_end d1 p (purchase_cooldown_seconds (settings d)) t2 = Some ready \<Longrightarrow>
     buy d req t1 t2 t3 fault = (Throttled ready, d1)"
  by (simp add: buy_def buy_checks_def)

lemma buy_insufficient:
  "cfg_enabled (settings d) \<Longrightarrow> get_active_rotation d t1 = Some r \<Longrightarrow>
   find (\<lambda>e. entry_id (fst e) = req_item_id req) (get_rotation_entries d r) = Some entry \<Longrightarrow>
   aget_or_create d (user_id req) = (p, d1) \<Longrightarrow>
   get_cooldown_end d1 p (purchase_cooldown_seconds (settings d)) t2 = None \<Longrightarrow>
   money p < price_snapshot (fst entry) \<Longrightarrow>
     buy d req t1 t2 t3 fault = (InsufficientFunds, d1)"
  by (simp add: buy_def buy_checks_def can_afford_def)

lemma stale_id_not_found:
  assumes active: "get_active_rotation d t1 = Some r"
    and stale: "\<forall>e\<in>set (rotation_items d). entry_id e = item \<longrightarrow>
                  (\<forall>r\<in>set (rotations d). rotation_id r = entry_rotation e \<longrightarrow> ends_at r \<le> t1)"
  shows "find (\<lambda>e. entry_id (fst e) = item) (get_rotation_entries d r) = None"
proof -
  note r = get_active_rotation_Some [OF active]
  have "entry_id (fst x) \<noteq> item" if "x \<in> set (get_rotation_entries d r)" for x
  proof
    assume id: "entry_id (fst x) = item"
    have mem: "fst x \<in> set (rotation_items d)" and rot: "rotation_id r = entry_rotation (fst x)"
      using get_rotation_entries_mem [OF that] by simp_all
    have "\<forall>r\<in>set (rotations d). rotation_id r = entry_rotation (fst x) \<longrightarrow> ends_at r \<le> t1"
      using stale mem id by blast
    then have "ends_at r \<le> t1" using r rot by blast
    then show False using r by simp
  qed
  then have "\<not> (\<exists>x. x \<in> set (get_rotation_entries d r) \<and> entry_id (fst x) = item)"
    by blast
  then show ?thesis unfolding find_None_iff .
qed

lemma aget_or_create_purchases [simp]:
  "purchases (snd (aget_or_create d uid)) = purchases d"
  by (simp add: aget_or_create_def Let_def split: option.splits)

lemma get_cooldown_end_iff:
  "get_cooldown_end d p cd now = Some ready \<longleftrightarrow>
     (\<exists>lp\<in>set (purchases d). purchase_player lp = player_pk p \<and>
        (\<forall>x\<in>set (purchases d). purchase_player x = player_pk p \<longrightarrow> created_at x \<le> created_at lp) \<and>
        ready = created_at lp + cd * 1000000 \<and> now < ready)"
  (is "?l \<longleftrightarrow> ?r")
proof
  let ?mine = "filter (\<lambda>x. purchase_player x = player_pk p) (purchases d)"
  assume ?l
  then obtain m where m: "afirst_desc created_at ?mine = Some m"
    and ready: "ready = created_at m + cd * 1000000" "now < ready"
    by (auto simp: get_cooldown_end_def Let_def split: option.splits if_splits)
  note afirst_desc_Some [OF m]
  then show ?r using ready by (intro bexI [of _ m]) auto
next
  let ?mine = "filter (\<lambda>x. purchase_player x = player_pk p) (purchases d)"
  assume ?r
  then obtain lp where lp: "lp \<in> set (purchases d)" "purchase_player lp = player_pk p"
    "\<forall>x\<in>set (purchases d). purchase_player x = player_pk p \<longrightarrow> created_at x \<le> created_at lp"
    "ready = created_at lp + cd * 1000000" "now < ready"
    by blast
  have "?mine \<noteq> []" using lp(1,2) by (auto simp: filter_empty_conv)
  then obtain m where m: "afirst_desc created_at ?mine = Some m"
    using afirst_desc_None [of created_at ?mine] by (cases "afirst_desc created_at ?mine") auto
  note mm = afirst_desc_Some [OF m]
  have "created_at lp \<le> created_at m" using mm lp(1,2) by auto
  moreover have "created_at m \<le> created_at lp" using mm lp(3) by auto
  ultimately have "created_at m = created_at lp" by simp
  then show ?l using m lp(4,5) by (simp add: get_cooldown_end_def)
qed

lemma buy_throttled_iff:
  "fst (buy d req t1 t2 t3 fault) = Throttled ready \<longleftrightarrow>
     cfg_enabled (settings d) \<and>
     (\<exists>r entry. get_active_rotation d t1 = Some r \<and>
        find (\<lambda>e. entry_id (fst e) = req_item_id req) (get_rotation_entries d r) = Some entry) \<and>
     get_cooldown_end (snd (aget_or_create d (user_id req))) (fst (aget_or_create d (user_id req)))
       (purchase_cooldown_seconds (settings d)) t2 = Some ready"
proof -
  have txn: "fst (buy_transaction d1 entry pl guild t f) \<noteq> Throttled ready"
    for d1 entry pl guild t f
    using buy_transaction_response [of d1 entry pl guild t f] by auto
  show ?thesis
    by (cases "aget_or_create d (user_id req)")
      (auto simp: buy_def buy_checks_def Let_def txn split: option.splits if_splits)
qed

subsection \<open>Claim C7\<close>

text \<open>
  C7. \<^verbatim>\<open>buy\<close> checks in this order, and rejects at the first check that fails whatever
  the later ones would say: a disabled merchant; no rotation that has not ended; an id
  that is no line item of the active rotation; a cooldown that has not run out;
  a balance below the price snapshot. The five rejections are pairwise different. An id
  whose line items all belong to rotations that have ended, while another rotation has
  not, is rejected as \<open>NotFound\<close> by an enabled merchant, and never as \<open>Throttled\<close> or
  \<open>InsufficientFunds\<close>.
\<close>

theorem buy_checks_in_order:
  fixes d :: db and req :: request and t_rotation t_cooldown t_created :: time
    and fault :: purchase_fault
  defines "out \<equiv> buy d req t_rotation t_cooldown t_created fault"
  defines "find_entry \<equiv> \<lambda>r. find (\<lambda>e. entry_id (fst e) = req_item_id req) (get_rotation_entries d r)"
  defines "cooldown \<equiv> purchase_cooldown_seconds (settings d)"
  shows
  "(\<not> cfg_enabled (settings d) \<longrightarrow> out = (Disabled, d)) \<and>
   (cfg_enabled (settings d) \<and> (\<forall>r\<in>set (rotations d). ends_at r \<le> t_rotation) \<longrightarrow>
      out = (NoRotation, d)) \<and>
   (\<forall>r. cfg_enabled (settings d) \<and> get_active_rotation d t_rotation = Some r \<and>
        (\<forall>e\<in>set (get_rotation_entries d r). entry_id (fst e) \<noteq> req_item_id req) \<longrightarrow>
      out = (NotFound, d)) \<and>
   (\<forall>r entry p d1 ready.
      cfg_enabled (settings d) \<and> get_active_rotation d t_rotation = Some r \<and>
      find_entry r = Some entry \<and> aget_or_create d (user_id req) = (p, d1) \<and>
      get_cooldown_end d1 p cooldown t_cooldown = Some ready \<longrightarrow>
      out = (Throttled ready, d1)) \<and>
   (\<forall>r entry p d1.
      cfg_enabled (settings d) \<and> get_active_rotation d t_rotation = Some r \<and>
      find_entry r = Some entry \<and> aget_or_create d (user_id req) = (p, d1) \<and>
      get_cooldown_end d1 p cooldown t_cooldown = None \<and>
      money p < price_snapshot (fst entry) \<longrightarrow>
      out = (InsufficientFunds, d1)) \<and>
   (\<forall>ready. distinct [Disabled, NoRotation, NotFound, Throttled ready, InsufficientFunds]) \<and>
   ((\<exists>r\<in>set (rotations d). t_rotation < ends_at r) \<and>
    (\<forall>e\<in>set (rotation_items d). entry_id e = req_item_id req \<longrightarrow>
       (\<forall>r\<in>set (rotations d). rotation_id r = entry_rotation e \<longrightarrow> ends_at r \<le> t_rotation)) \<longrightarrow>
      (cfg_enabled (settings d) \<longrightarrow> out = (NotFound, d)) \<and>
      (fst out = NotFound \<or> fst out = Disabled))"
proof -
  have c1: "\<not> cfg_enabled (settings d) \<longrightarrow> out = (Disabled, d)"
    by (simp add: out_def buy_disabled)
  have c2: "cfg_enabled (settings d) \<and> (\<forall>r\<in>set (rotations d). ends_at r \<le> t_rotation) \<longrightarrow>
      out = (NoRotation, d)"
    by (simp add: out_def buy_no_rotation get_active_rotation_None)
  have c3: "\<forall>r. cfg_enabled (settings d) \<and> get_active_rotation d t_rotation = Some r \<and>
        (\<forall>e\<in>set (get_rotation_entries d r). entry_id (fst e) \<noteq> req_item_id req) \<longrightarrow>
      out = (NotFound, d)"
  proof (intro allI impI)
    fix r
    assume a: "cfg_enabled (settings d) \<and> get_active_rotation d t_rotation = Some r \<and>
        (\<forall>e\<in>set (get_rotation_entries d r). entry_id (fst e) \<noteq> req_item_id req)"
    then have "find (\<lambda>e. entry_id (fst e) = req_item_id req) (get_rotation_entries d r) = None"
      by (auto simp: find_None_iff)
    then show "out = (NotFound, d)"
      unfolding out_def using a buy_not_found by blast
  qed
  have c4: "\<forall>r entry p d1 ready.
      cfg_enabled (settings d) \<and> get_active_rotation d t_rotation = Some r \<and>
      find_entry r = Some entry \<and> aget_or_create d (user_id req) = (p, d1) \<and>
      get_cooldown_end d1 p cooldown t_cooldown = Some ready \<longrightarrow>
      out = (Throttled ready, d1)"
    unfolding out_def find_entry_def cooldown_def using buy_throttled by blast
  have c5: "\<forall>r entry p d1.
      cfg_enabled (settings d) \<and> get_active_rotation d t_rotation = Some r \<and>
      find_entry r = Some entry \<and> aget_or_create d (user_id req) = (p, d1) \<and>
      get_cooldown_end d1 p cooldown t_cooldown = None \<and>
      money p < price_snapshot (fst entry) \<longrightarrow>
      out = (InsufficientFunds, d1)"
    unfolding out_def find_entry_def cooldown_def using buy_insufficient by blast
  have c6: "\<forall>ready. distinct [Disabled, NoRotation, NotFound, Throttled ready, InsufficientFunds]"
    by simp
  have c7: "(cfg_enabled (settings d) \<longrightarrow> out = (NotFound, d)) \<and>
      (fst out = NotFound \<or> fst out = Disabled)"
    if sup: "\<exists>r\<in>set (rotations d). t_rotation < ends_at r"
      and stale: "\<forall>e\<in>set (rotation_items d). entry_id e = req_item_id req \<longrightarrow>
       (\<forall>r\<in>set (rotations d). rotation_id r = entry_rotation e \<longrightarrow> ends_at r \<le> t_rotation)"
  proof (cases "cfg_enabled (settings d)")
    case False
    then show ?thesis using c1 by simp
  next
    case True
    have "get_active_rotation d t_rotation \<noteq> None"
      using sup by (auto simp: get_active_rotation_None not_le)
    then obtain r where r: "get_active_rotation d t_rotation = Some r" by blast
    have "out = (NotFound, d)"
      unfolding out_def using True r stale_id_not_found [OF r stale] by (rule buy_not_found)
    then show ?thesis by simp
  qed
  show ?thesis using c1 c2 c3 c4 c5 c6 c7 by blast
qed

theorem buy_checks_in_order_witness:
  "buy ex_store (ex_request\<lparr>req_item_id := 1\<rparr>) 2000 2000 2000 NoFault = (NotFound, ex_store) \<and>
   buy ex_store_after_purchase ex_request 2000 2000 2000 NoFault =
     (Throttled 60001500, ex_store_after_purchase)"
proof -
  let ?req = "ex_request\<lparr>req_item_id := 1\<rparr>"
  have enabled: "cfg_enabled (settings ex_store)" by (simp add: ex_defs)
  have superseded: "\<exists>r\<in>set (rotations ex_store). 2000 < ends_at r" by (simp add: ex_defs)
  have stale: "\<forall>e\<in>set (rotation_items ex_store). entry_id e = req_item_id ?req \<longrightarrow>
       (\<forall>r\<in>set (rotations ex_store). rotation_id r = entry_rotation e \<longrightarrow> ends_at r \<le> 2000)"
    by (simp add: ex_defs)
  have a: "buy ex_store ?req 2000 2000 2000 NoFault = (NotFound, ex_store)"
    using buy_checks_in_order [of ex_store ?req 2000 2000 2000 NoFault] enabled superseded stale
    by blast
  have e2: "cfg_enabled (settings ex_store_after_purchase)" by (simp add: ex_defs)
  have r2: "get_active_rotation ex_store_after_purchase 2000 = Some ex_current"
    by (simp add: get_active_rotation_def ex_defs)
  have f2: "find (\<lambda>e. entry_id (fst e) = req_item_id ex_request)
       (get_rotation_entries ex_store_after_purchase ex_current) =
     Some (\<lparr>entry_id = 2, entry_rotation = 2, entry_item = 1, price_snapshot = 80\<rparr>, ex_common)"
    by (simp add: get_rotation_entries_def ex_defs)
  have p2: "aget_or_create ex_store_after_purchase (user_id ex_request) =
      (ex_alice, ex_store_after_purchase)"
    by (simp add: aget_or_create_def ex_defs)
  have c2: "get_cooldown_end ex_store_after_purchase ex_alice
      (purchase_cooldown_seconds (settings ex_store_after_purchase)) 2000 = Some 60001500"
    by (simp add: get_cooldown_end_def ex_defs)
  have b: "buy ex_store_after_purchase ex_request 2000 2000 2000 NoFault =
     (Throttled 60001500, ex_store_after_purchase)"
    using buy_checks_in_order [of ex_store_after_purchase ex_request 2000 2000 2000 NoFault]
      e2 r2 f2 p2 c2
    by blast
  show ?thesis using a b by blast
qed

subsection \<open>Claim C8\<close>

text \<open>
  C8, as amended. For a request that passes the first three checks (merchant enabled,
  a rotation active, the id one of its line items), \<^verbatim>\<open>buy\<close> answers \<open>Throttled ready\<close> if and
  only if the player has a ledger entry, the most recent one has
  \<open>created_at + cooldown_seconds\<close> strictly after the clock read, and \<open>ready\<close> is that time.
  Every \<open>Throttled\<close> answer of \<^verbatim>\<open>buy\<close> reports that time, and a player without a ledger
  entry is never answered \<open>Throttled\<close>.
\<close>

theorem throttled_iff_cooldown_after_lookups:
  fixes d :: db and req :: request and t_rotation t_cooldown t_created ready :: time
    and fault :: purchase_fault
  defines "p \<equiv> fst (aget_or_create d (user_id req))"
  defines "on_cooldown \<equiv>
    (\<exists>lp\<in>set (purchases d). purchase_player lp = player_pk p \<and>
       (\<forall>x\<in>set (purchases d). purchase_player x = player_pk p \<longrightarrow> created_at x \<le> created_at lp) \<and>
       ready = created_at lp + purchase_cooldown_seconds (settings d) * 1000000 \<and>
       t_cooldown < ready)"
  shows
  "(\<forall>r entry. cfg_enabled (settings d) \<and> get_active_rotation d t_rotation = Some r \<and>
       find (\<lambda>e. entry_id (fst e) = req_item_id req) (get_rotation_entries d r) = Some entry \<longrightarrow>
       (fst (buy d req t_rotation t_cooldown t_created fault) = Throttled ready \<longleftrightarrow> on_cooldown)) \<and>
   (fst (buy d req t_rotation t_cooldown t_created fault) = Throttled ready \<longrightarrow> on_cooldown) \<and>
   ((\<forall>x\<in>set (purchases d). purchase_player x \<noteq> player_pk p) \<longrightarrow>
      fst (buy d req t_rotation t_cooldown t_created fault) \<noteq> Throttled ready)"
proof -
  have cd: "get_cooldown_end (snd (aget_or_create d (user_id req))) p
       (purchase_cooldown_seconds (settings d)) t_cooldown = Some ready \<longleftrightarrow> on_cooldown"
    unfolding on_cooldown_def get_cooldown_end_iff by simp
  have only_if: "fst (buy d req t_rotation t_cooldown t_created fault) = Throttled ready \<longrightarrow> on_cooldown"
    using cd by (simp add: buy_throttled_iff p_def)
  have iff: "fst (buy d req t_rotation t_cooldown t_created fault) = Throttled ready \<longleftrightarrow> on_cooldown"
    if "cfg_enabled (settings d)" "get_active_rotation d t_rotation = Some r"
      "find (\<lambda>e. entry_id (fst e) = req_item_id req) (get_rotation_entries d r) = Some entry"
    for r entry
    using that cd by (simp add: buy_throttled_iff p_def)
  have never: "fst (buy d req t_rotation t_cooldown t_created fault) \<noteq> Throttled ready"
    if "\<forall>x\<in>set (purchases d). purchase_player x \<noteq> player_pk p"
    using that only_if by (auto simp: on_cooldown_def)
  show ?thesis using iff only_if never by blast
qed

theorem throttled_iff_cooldown_after_lookups_witness:
  "fst (buy ex_store_after_purchase ex_request 2000 2001 2002 NoFault) = Throttled 60001500 \<and>
   fst (buy ex_store ex_request 2000 2001 2002 NoFault) \<noteq> Throttled 60001500"
proof -
  have e2: "cfg_enabled (settings ex_store_after_purchase)" by (simp add: ex_defs)
  have r2: "get_active_rotation ex_store_after_purchase 2000 = Some ex_current"
    by (simp add: get_active_rotation_def ex_defs)
  have f2: "find (\<lambda>e. entry_id (fst e) = req_item_id ex_request)
       (get_rotation_entries ex_store_after_purchase ex_current) =
     Some (\<lparr>entry_id = 2, entry_rotation = 2, entry_item = 1, price_snapshot = 80\<rparr>, ex_common)"
    by (simp add: get_rotation_entries_def ex_defs)
  have p2: "fst (aget_or_create ex_store_after_purchase (user_id ex_request)) = ex_alice"
    by (simp add: aget_or_create_def ex_defs)
  have cool: "\<exists>lp\<in>set (purchases ex_store_after_purchase).
      purchase_player lp = player_pk ex_alice \<and>
      (\<forall>x\<in>set (purchases ex_store_after_purchase).
          purchase_player x = player_pk ex_alice \<longrightarrow> created_at x \<le> created_at lp) \<and>
      60001500 = created_at lp + purchase_cooldown_seconds (settings ex_store_after_purchase) * 1000000 \<and>
      2001 < (60001500::int)"
    by (simp add: ex_defs)
  have a: "fst (buy ex_store_after_purchase ex_request 2000 2001 2002 NoFault) = Throttled 60001500"
    using throttled_iff_cooldown_after_lookups
      [of ex_store_after_purchase 2000 ex_request 2001 2002 NoFault 60001500]
      e2 r2 f2 cool
    unfolding p2 by blast
  have p1: "fst (aget_or_create ex_store (user_id ex_request)) = ex_alice"
    by (simp add: aget_or_create_def ex_defs)
  have none: "\<forall>x\<in>set (purchases ex_store). purchase_player x \<noteq> player_pk ex_alice"
    by (simp add: ex_defs)
  have b: "fst (buy ex_store ex_request 2000 2001 2002 NoFault) \<noteq> Throttled 60001500"
    using throttled_iff_cooldown_after_lookups
      [of ex_store 2000 ex_request 2001 2002 NoFault 60001500] none
    unfolding p1 by blast
  show ?thesis using a b by blast
qed

text \<open>
  C8 as stated fails in the direction "if": the player's most recent purchase is still
  cooling down, and a request for an id outside the active rotation is answered
  \<open>NotFound\<close>, not \<open>Throttled\<close>.
\<close>

theorem throttled_not_first_check_counterexample:
  "\<lparr>purchase_player = 1, purchase_rotation_item = 3, created_at = 1500\<rparr>
      \<in> set (purchases ex_store_after_purchase) \<and>
   player_pk ex_alice = 1 \<and>
   purchase_cooldown_seconds (settings ex_store_after_purchase) = 60 \<and>
   (2000::int) < 1500 + 60 * 1000000 \<and>
   get_cooldown_end ex_store_after_purchase ex_alice 60 2000 = Some 60001500 \<and>
   buy ex_store_after_purchase (ex_request\<lparr>req_item_id := 1\<rparr>) 2000 2000 2000 NoFault =
     (NotFound, ex_store_after_purchase)"
  by (simp add: buy_def buy_checks_def get_active_rotation_def get_rotation_entries_def
      get_cooldown_end_def ex_defs)

subsection \<open>What \<^verbatim>\<open>view\<close> and \<^verbatim>\<open>buy\<close> do to the rotations\<close>

lemma aget_or_create_keeps:
  "rotations (snd (aget_or_create d uid)) = rotations d"
  "rotation_items (snd (aget_or_create d uid)) = rotation_items d"
  "settings (snd (aget_or_create d uid)) = settings d"
  "items (snd (aget_or_create d uid)) = items d"
  by (simp_all add: aget_or_create_def Let_def split: option.splits)

lemma buy_checks_store:
  "snd (buy_checks d req t1 t2) = d \<or>
   snd (buy_checks d req t1 t2) = snd (aget_or_create d (user_id req))"
  by (cases "aget_or_create d (user_id req)")
    (auto simp: buy_checks_def Let_def split: option.splits)

lemma purchase_body_keeps:
  "rotations (snd (purchase_body entry pl guild t fault d)) = rotations d"
  "rotation_items (snd (purchase_body entry pl guild t fault d)) = rotation_items d"
  "settings (snd (purchase_body entry pl guild t fault d)) = settings d"
  "items (snd (purchase_body entry pl guild t fault d)) = items d"
  by (simp_all add: purchase_body_def save_player_def Let_def split: sum.splits)

lemma buy_transaction_store:
  "snd (buy_transaction d entry pl guild t fault) = d \<or>
   snd (buy_transaction d entry pl guild t fault) = snd (purchase_body entry pl guild t fault d)"
  by (cases "purchase_body entry pl guild t fault d")
    (auto simp: buy_transaction_def atomic_def split: sum.splits response.splits)

lemma buy_transaction_keeps:
  "rotations (snd (buy_transaction d entry pl guild t fault)) = rotations d"
  "rotation_items (snd (buy_transaction d entry pl guild t fault)) = rotation_items d"
  "settings (snd (buy_transaction d entry pl guild t fault)) = settings d"
  "items (snd (buy_transaction d entry pl guild t fault)) = items d"
  using buy_transaction_store [of d entry pl guild t fault]
  by (auto simp: purchase_body_keeps)

lemma buy_keeps:
  "rotations (snd (buy d req t1 t2 t3 fault)) = rotations d \<and>
   rotation_items (snd (buy d req t1 t2 t3 fault)) = rotation_items d \<and>
   settings (snd (buy d req t1 t2 t3 fault)) = settings d \<and>
   items (snd (buy d req t1 t2 t3 fault)) = items d"
proof (cases "buy_checks d req t1 t2")
  case (Pair res d1)
  have d1: "d1 = d \<or> d1 = snd (aget_or_create d (user_id req))"
    using buy_checks_store [of d req t1 t2] Pair by simp
  then have keep: "rotations d1 = rotations d" "rotation_items d1 = rotation_items d"
    "settings d1 = settings d" "items d1 = items d"
    by (auto simp: aget_or_create_keeps)
  show ?thesis
  proof (cases res)
    case (Inl rejection)
    then show ?thesis using Pair keep by (simp add: buy_def)
  next
    case (Inr ok)
    then show ?thesis using Pair keep
      by (cases ok) (simp add: buy_def buy_transaction_keeps)
  qed
qed

lemma view_store:
  "snd (view d tn tq tc rnd fault) = snd (ensure_rotation d tn tq tc rnd fault)"
  by (cases "ensure_rotation d tn tq tc rnd fault")
    (auto simp: view_def Let_def split: sum.splits option.splits)

lemma view_away:
  "fst (view d tn tq tc rnd fault) = Inr Away \<longleftrightarrow>
     fst (ensure_rotation d tn tq tc rnd fault) = Inr None"
  by (cases "ensure_rotation d tn tq tc rnd fault")
    (auto simp: view_def Let_def split: sum.splits option.splits)

subsection \<open>Claim C10\<close>

text \<open>
  C10, as amended. \<^verbatim>\<open>view\<close> calls \<^verbatim>\<open>ensure_rotation\<close> before it operates on the rotation:
  the store it leaves is the one \<^verbatim>\<open>ensure_rotation\<close> leaves, it answers "away" exactly when
  \<^verbatim>\<open>ensure_rotation\<close> returns \<^verbatim>\<open>None\<close>, and so, on an enabled merchant with an enabled
  catalog item (distinct primary keys) and no fault of the store, it persists a fresh
  rotation when no rotation is unexpired. \<^verbatim>\<open>buy\<close> does not call \<^verbatim>\<open>ensure_rotation\<close>: it
  only looks the active rotation up (\<^verbatim>\<open>_get_active_rotation\<close>), it never changes the
  rotations, their line items or the settings, and on an enabled merchant with no
  unexpired rotation it answers "no active rotation" and changes nothing.
\<close>

theorem view_ensures_rotation_buy_only_looks_up:
  fixes d :: db and req :: request
    and t_now t_query t_create t_rotation t_cooldown t_created :: time
    and rnd :: random_source and rotation_fault :: rotation_fault and fault :: purchase_fault
  defines "seen \<equiv> view d t_now t_query t_create rnd rotation_fault"
  defines "bought \<equiv> buy d req t_rotation t_cooldown t_created fault"
  shows
  "snd seen = snd (ensure_rotation d t_now t_query t_create rnd rotation_fault) \<and>
   (fst seen = Inr Away \<longleftrightarrow>
      fst (ensure_rotation d t_now t_query t_create rnd rotation_fault) = Inr None) \<and>
   (cfg_enabled (settings d) \<and> (\<forall>r\<in>set (rotations d). ends_at r \<le> t_query) \<and>
    filter item_enabled (items d) \<noteq> [] \<and> distinct (map item_id (items d)) \<and>
    rotation_fault = NoRotationFault \<longrightarrow>
      (\<exists>nr. rotations (snd seen) = rotations d @ [nr] \<and> starts_at nr = t_create \<and>
            fst seen \<noteq> Inr Away)) \<and>
   rotations (snd bought) = rotations d \<and>
   rotation_items (snd bought) = rotation_items d \<and>
   settings (snd bought) = settings d \<and>
   (cfg_enabled (settings d) \<and> (\<forall>r\<in>set (rotations d). ends_at r \<le> t_rotation) \<longrightarrow>
      bought = (NoRotation, d))"
proof -
  have v1: "snd seen = snd (ensure_rotation d t_now t_query t_create rnd rotation_fault)"
    by (simp add: seen_def view_store)
  have v2: "fst seen = Inr Away \<longleftrightarrow>
      fst (ensure_rotation d t_now t_query t_create rnd rotation_fault) = Inr None"
    by (simp add: seen_def view_away)
  have v3: "\<exists>nr. rotations (snd seen) = rotations d @ [nr] \<and> starts_at nr = t_create \<and>
            fst seen \<noteq> Inr Away"
    if en: "cfg_enabled (settings d)" and none: "\<forall>r\<in>set (rotations d). ends_at r \<le> t_query"
      and ne: "filter item_enabled (items d) \<noteq> []" and keys: "distinct (map item_id (items d))"
      and nf: "rotation_fault = NoRotationFault"
  proof -
    have "get_active_rotation d t_query = None"
      using none by (simp add: get_active_rotation_None)
    then have run: "ensure_rotation d t_now t_query t_create rnd rotation_fault =
        create_new_rotation d (settings d) rnd t_create NoRotationFault"
      using en nf by (simp add: ensure_rotation_def Let_def)
    let ?nr = "\<lparr>rotation_id = next_pk (map rotation_id (rotations d)), starts_at = t_create,
                ends_at = t_create + rotation_minutes (settings d) * 60000000\<rparr>"
    have kle: "nat (min (items_per_rotation (settings d))
             (int (length (filter item_enabled (items d))))) \<le> length (filter item_enabled (items d))"
      by simp
    have ids: "distinct (map item_id (filter item_enabled (items d)))"
      using keys by (simp add: distinct_map_filter)
    obtain sel where "select_items rnd 0
        (nat (min (items_per_rotation (settings d)) (int (length (filter item_enabled (items d))))))
        (filter item_enabled (items d)) [] = Inr sel"
      using select_items_sound [OF kle ids, of rnd 0 "[]"] by auto
    then have "create_new_rotation d (settings d) rnd t_create NoRotationFault =
        (Inr (Some ?nr),
         d\<lparr>rotations := rotations d @ [?nr],
           rotation_items := rotation_items d @
             new_entries (next_pk (map entry_id (rotation_items d)))
               (next_pk (map rotation_id (rotations d))) sel,
           settings := (settings d)\<lparr>last_rotation_at := Some t_create\<rparr>\<rparr>)"
      using create_new_rotation_unfold [OF ne, of rnd "settings d" sel t_create NoRotationFault]
      by simp
    then show ?thesis
      using run v1 v2 by (intro exI [of _ ?nr]) simp
  qed
  have b1: "rotations (snd bought) = rotations d" "rotation_items (snd bought) = rotation_items d"
    "settings (snd bought) = settings d"
    using buy_keeps [of d req t_rotation t_cooldown t_created fault] by (simp_all add: bought_def)
  have b2: "bought = (NoRotation, d)"
    if "cfg_enabled (settings d)" "\<forall>r\<in>set (rotations d). ends_at r \<le> t_rotation"
    unfolding bought_def using that by (simp add: buy_no_rotation get_active_rotation_None)
  show ?thesis using v1 v2 v3 b1 b2 by blast
qed

theorem view_ensures_rotation_buy_only_looks_up_witness:
  "buy ex_fresh_store ex_request 2000 2000 2000 NoFault = (NoRotation, ex_fresh_store) \<and>
   (\<exists>nr. rotations (snd (view ex_fresh_store 2000 2000 2000 (\<lambda>n total. 0) NoRotationFault)) = [nr] \<and>
      starts_at nr = 2000)"
proof -
  have en: "cfg_enabled (settings ex_fresh_store)" by (simp add: ex_defs)
  have none: "\<forall>r\<in>set (rotations ex_fresh_store). ends_at r \<le> 2000" by (simp add: ex_defs)
  have keys: "distinct (map item_id (items ex_fresh_store))" by (simp add: ex_defs)
  have rots: "rotations ex_fresh_store = []" by (simp add: ex_defs)
  note inst = view_ensures_rotation_buy_only_looks_up
    [of ex_fresh_store 2000 2000 2000 "\<lambda>n total. 0" NoRotationFault ex_request 2000 2000 2000 NoFault]
  have a: "buy ex_fresh_store ex_request 2000 2000 2000 NoFault = (NoRotation, ex_fresh_store)"
    using inst en none by blast
  have b: "\<exists>nr. rotations (snd (view ex_fresh_store 2000 2000 2000 (\<lambda>n total. 0) NoRotationFault)) =
      rotations ex_fresh_store @ [nr] \<and> starts_at nr = 2000"
    using inst en none ex_nonempty keys by blast
  show ?thesis using a b unfolding rots by simp
qed

text \<open>
  C10 as stated fails for \<^verbatim>\<open>buy\<close>: on a store with no rotation \<^verbatim>\<open>buy\<close> rejects and creates
  none, where \<^verbatim>\<open>ensure_rotation\<close> on the same store creates one.
\<close>

theorem buy_does_not_ensure_rotation_counterexample:
  "get_active_rotation ex_fresh_store 2000 = None \<and>
   buy ex_fresh_store ex_request 2000 2000 2000 NoFault = (NoRotation, ex_fresh_store) \<and>
   rotations ex_fresh_store = [] \<and>
   rotations (snd (ensure_rotation ex_fresh_store 2000 2000 2000 (\<lambda>n total. 0) NoRotationFault)) =
     [\<lparr>rotation_id = 1, starts_at = 2000, ends_at = 3600002000\<rparr>]"
proof -
  have "rotations (snd (ensure_rotation ex_fresh_store 2000 2000 2000 (\<lambda>n total. 0) NoRotationFault)) =
     [\<lparr>rotation_id = 1, starts_at = 2000, ends_at = 3600002000\<rparr>]"
    unfolding ex_fresh_ensure ex_create by (simp add: next_pk_def ex_defs)
  moreover have "get_active_rotation ex_fresh_store 2000 = None"
    "buy ex_fresh_store ex_request 2000 2000 2000 NoFault = (NoRotation, ex_fresh_store)"
    "rotations ex_fresh_store = []"
    by (simp_all add: buy_def buy_checks_def get_active_rotation_def ex_defs)
  ultimately show ?thesis by blast
qed

end
